theory Spec2Isabelle
  imports Complex_Main "HOL-Library.Word"
begin

section \<open>MintDiff: classification and line reconciliation (src/lib/diff.ts)\<close>

subsection \<open>Strings, bytes and JavaScript numbers\<close>

text \<open>
  A \<^verbatim>\<open>Buffer\<close> is a list of bytes. A JavaScript string is modelled as a \<^typ>\<open>string\<close>
  (a list of characters); the functions below only compare characters with
  line feed, carriage return and the ASCII letters of the hint tables.
\<close>

type_synonym byte = "8 word"
type_synonym buffer = "byte list"

definition LF :: char where
  "LF = CHR 0x0A"

definition CR :: char where
  "CR = CHR 0x0D"

text \<open>
  \<^verbatim>\<open>String.prototype.toLowerCase\<close>, on the characters the hint tables can match:
  the ASCII capitals are mapped to their small letters, every other character is kept.
\<close>

definition toLowerChar :: "char \<Rightarrow> char" where
  "toLowerChar c =
     (let n = (of_char c :: nat) in if 65 \<le> n \<and> n \<le> 90 then char_of (n + 32) else c)"

definition toLowerCase :: "string \<Rightarrow> string" where
  "toLowerCase s = map toLowerChar s"

text \<open>\<^verbatim>\<open>s.startsWith(h)\<close> and \<^verbatim>\<open>xs.includes(x)\<close>.\<close>

definition startsWith :: "string \<Rightarrow> string \<Rightarrow> bool" where
  "startsWith s h = (take (length h) s = h)"

definition arrayIncludes :: "string list \<Rightarrow> string \<Rightarrow> bool" where
  "arrayIncludes xs x = (x \<in> set xs)"

text \<open>
  JavaScript numbers are IEEE 754 doubles. The finite doubles are modelled as the
  rationals they denote; \<open>fl\<close> rounds a rational to the nearest double, ties to the
  even significand (53 bits). The counters of this program are integers far below
  \<open>2 ^ 53\<close>, which are doubles themselves; only the two divisions and the
  multiplication by 100 round. Overflow and subnormal numbers do not arise there and
  are not modelled.
\<close>

function binadeUp :: "rat \<Rightarrow> int" where
  "binadeUp x = (if 2 \<le> x then binadeUp (x / 2) + 1 else 0)"
  by pat_completeness auto
termination
  by (relation "measure (\<lambda>x. nat \<lfloor>x\<rfloor>)") (auto, linarith)

function binadeDown :: "rat \<Rightarrow> int" where
  "binadeDown x = (if 0 < x \<and> x < 1 then binadeDown (2 * x) - 1 else 0)"
  by pat_completeness auto
termination
proof (relation "measure (\<lambda>x. if 0 < x \<and> x < 1 then nat \<lceil>1 / x\<rceil> else 0)")
  show "wf (measure (\<lambda>x::rat. if 0 < x \<and> x < 1 then nat \<lceil>1 / x\<rceil> else 0))"
    by simp
next
  fix x :: rat
  assume a: "0 < x \<and> x < 1"
  then have one: "1 < 1 / x"
    by simp
  then have pos: "0 < \<lceil>1 / x\<rceil>"
    by linarith
  have "\<lceil>1 / (2 * x)\<rceil> < \<lceil>1 / x\<rceil>" if "2 * x < 1"
  proof -
    from that a have "2 < 1 / x"
      by (simp add: field_simps)
    then have "1 / (2 * x) + 1 < 1 / x"
      by (simp add: field_simps)
    then show ?thesis
      by linarith
  qed
  with pos show "(2 * x, x) \<in> measure (\<lambda>x. if 0 < x \<and> x < 1 then nat \<lceil>1 / x\<rceil> else 0)"
    using a by auto
qed

text \<open>\<open>binade x\<close> is the exponent \<open>e\<close> with \<open>2 ^ e \<le> x < 2 ^ (e + 1)\<close>, for \<open>0 < x\<close>.\<close>

definition binade :: "rat \<Rightarrow> int" where
  "binade x = (if 1 \<le> x then binadeUp x else binadeDown x)"

definition pow2 :: "int \<Rightarrow> rat" where
  "pow2 e = (if 0 \<le> e then 2 ^ nat e else 1 / 2 ^ nat (- e))"

definition roundEven :: "rat \<Rightarrow> int" where
  "roundEven m =
     (let f = \<lfloor>m\<rfloor>; r = m - of_int f
      in if r < 1 / 2 then f else if 1 / 2 < r then f + 1 else if even f then f else f + 1)"

definition fl :: "rat \<Rightarrow> rat" where
  "fl x =
     (if x = 0 then 0
      else let a = \<bar>x\<bar>; u = pow2 (binade a - 52); y = of_int (roundEven (a / u)) * u
           in if x < 0 then - y else y)"

text \<open>\<^verbatim>\<open>Math.round\<close>: the nearest integer, a tie going up.\<close>

definition Math_round :: "rat \<Rightarrow> int" where
  "Math_round x = \<lfloor>x + 1 / 2\<rfloor>"

subsection \<open>The hint tables\<close>

definition TEXT_MIME_HINTS :: "string list" where
  "TEXT_MIME_HINTS =
     [''application/json'', ''application/xml'', ''application/yaml'',
      ''application/x-yaml'', ''application/toml'', ''application/javascript'',
      ''application/typescript'', ''application/graphql'', ''text/'']"

definition TEXT_EXT_HINTS :: "string list" where
  "TEXT_EXT_HINTS =
     [''txt'', ''md'', ''json'', ''yaml'', ''yml'', ''xml'', ''toml'', ''csv'',
      ''ts'', ''tsx'', ''js'', ''jsx'', ''css'', ''html'']"

definition BINARY_MIME_HINTS :: "string list" where
  "BINARY_MIME_HINTS =
     [''image/'', ''audio/'', ''video/'', ''application/pdf'', ''application/zip'',
      ''application/x-zip-compressed'']"

definition CONTROL_BYTES :: "byte list" where
  "CONTROL_BYTES =
     [0, 1, 2, 3, 4, 5, 6, 14, 15, 16, 17, 18, 19, 20, 21, 22, 23, 24, 25, 26,
      27, 28, 29, 30, 31]"

definition MAX_SNIFF_BYTES :: nat where
  "MAX_SNIFF_BYTES = 4096"

subsection \<open>The classifier\<close>

text \<open>
  The loop of \<^verbatim>\<open>controlRatio\<close>: \<open>None\<close> is the early \<^verbatim>\<open>return 1\<close> at a null byte,
  \<open>Some n\<close> the value of \<^verbatim>\<open>controlCount\<close> after the last byte.
\<close>

fun countControl :: "buffer \<Rightarrow> nat \<Rightarrow> nat option" where
  "countControl [] controlCount = Some controlCount"
| "countControl (byte # bytes) controlCount =
     (if byte = 0 then None
      else if byte \<in> set CONTROL_BYTES then countControl bytes (controlCount + 1)
      else countControl bytes controlCount)"

definition controlRatio :: "buffer \<Rightarrow> rat" where
  "controlRatio buffer =
     (let sample = (if length buffer > MAX_SNIFF_BYTES then take MAX_SNIFF_BYTES buffer
                    else buffer)
      in if length sample = 0 then 0
         else case countControl sample 0 of
                None \<Rightarrow> 1
              | Some controlCount \<Rightarrow> fl (of_nat controlCount / of_nat (length sample)))"

text \<open>
  The optional parameters \<^verbatim>\<open>mime?: string\<close> and \<^verbatim>\<open>extension?: string\<close> are options;
  \<^verbatim>\<open>x ?? ""\<close> is \<open>orEmpty\<close>, and a string is truthy when it is defined and not empty.
\<close>

definition orEmpty :: "string option \<Rightarrow> string" where
  "orEmpty x = (case x of None \<Rightarrow> [] | Some s \<Rightarrow> s)"

definition truthy :: "string option \<Rightarrow> bool" where
  "truthy x = (case x of None \<Rightarrow> False | Some s \<Rightarrow> s \<noteq> [])"

definition isProbablyText :: "buffer \<Rightarrow> string option \<Rightarrow> string option \<Rightarrow> bool" where
  "isProbablyText buffer mime extension =
     (let normalizedMime = toLowerCase (orEmpty mime)
      in if list_ex (\<lambda>hint. startsWith normalizedMime hint) TEXT_MIME_HINTS then True
         else if list_ex (\<lambda>hint. startsWith normalizedMime hint) BINARY_MIME_HINTS then False
         else if (normalizedMime = ''application/octet-stream'' \<or> normalizedMime = [] \<or>
                  normalizedMime = ''application/x-empty'') \<and>
                 arrayIncludes TEXT_EXT_HINTS (toLowerCase (orEmpty extension)) then True
         else if truthy extension \<and>
                 arrayIncludes TEXT_EXT_HINTS (toLowerCase (orEmpty extension)) then True
         else controlRatio buffer < fl (1 / 10))"

datatype FileKind = Text | Binary

definition classifyKind :: "buffer \<Rightarrow> string option \<Rightarrow> string option \<Rightarrow> FileKind" where
  "classifyKind buffer mime extension =
     (if isProbablyText buffer mime extension then Text else Binary)"

text \<open>
  \<^verbatim>\<open>sniffMime\<close> calls \<^verbatim>\<open>fileTypeFromBuffer\<close> of the package \<^verbatim>\<open>file-type\<close>, which is not
  part of this repository: it is a parameter here, returning the matched signature
  (its extension and media type) or nothing.
\<close>

record FileTypeResult =
  ft_ext :: string
  ft_mime :: string

definition sniffMime ::
  "(buffer \<Rightarrow> FileTypeResult option) \<Rightarrow> buffer \<Rightarrow> string option \<Rightarrow> string option \<Rightarrow> string" where
  "sniffMime fileTypeFromBuffer buffer provided extension =
     (let detected = fileTypeFromBuffer buffer;
          detectedMime = map_option ft_mime detected
      in if truthy detectedMime then orEmpty detectedMime
         else if truthy provided then orEmpty provided
         else let ext = toLowerCase (orEmpty extension)
              in if arrayIncludes TEXT_EXT_HINTS ext then ''text/plain''
                 else ''application/octet-stream'')"

text \<open>
  The classification the program runs (\<^verbatim>\<open>loadFile\<close> in \<^verbatim>\<open>route.ts\<close>): the media type
  comes from \<^verbatim>\<open>sniffMime\<close>, fed with the declared type and the extension, and that
  media type, not the declared one, is what \<^verbatim>\<open>classifyKind\<close> receives. A signature
  matched when \<^verbatim>\<open>detected?.mime\<close> is truthy.
\<close>

definition classify ::
  "(buffer \<Rightarrow> FileTypeResult option) \<Rightarrow> buffer \<Rightarrow> string option \<Rightarrow> string option \<Rightarrow> FileKind" where
  "classify fileTypeFromBuffer buffer declared extension =
     (let inferredMime = sniffMime fileTypeFromBuffer buffer declared extension
      in classifyKind buffer (Some inferredMime) extension)"

definition signatureMatched :: "(buffer \<Rightarrow> FileTypeResult option) \<Rightarrow> buffer \<Rightarrow> bool" where
  "signatureMatched fileTypeFromBuffer buffer =
     truthy (map_option ft_mime (fileTypeFromBuffer buffer))"

text \<open>
  A value for the parameter \<^verbatim>\<open>fileTypeFromBuffer\<close>, to run the classification on
  concrete buffers: it knows the eight-byte PNG signature and nothing else.
  \<open>pngHeader\<close> is the start of a PNG file, the signature and the head of its first chunk.
\<close>

definition pngSignature :: buffer where
  "pngSignature = [0x89, 0x50, 0x4E, 0x47, 0x0D, 0x0A, 0x1A, 0x0A]"

definition pngSniffer :: "buffer \<Rightarrow> FileTypeResult option" where
  "pngSniffer buffer =
     (if take 8 buffer = pngSignature then Some \<lparr>ft_ext = ''png'', ft_mime = ''image/png''\<rparr>
      else None)"

definition pngHeader :: buffer where
  "pngHeader = pngSignature @ [0, 0, 0, 13, 73, 72, 68, 82]"

text \<open>The three questions \<^verbatim>\<open>isProbablyText\<close> asks of its hints.\<close>

definition textMime :: "string option \<Rightarrow> bool" where
  "textMime declared =
     list_ex (\<lambda>hint. startsWith (toLowerCase (orEmpty declared)) hint) TEXT_MIME_HINTS"

definition binaryMime :: "string option \<Rightarrow> bool" where
  "binaryMime declared =
     list_ex (\<lambda>hint. startsWith (toLowerCase (orEmpty declared)) hint) BINARY_MIME_HINTS"

definition textExt :: "string option \<Rightarrow> bool" where
  "textExt extension =
     (truthy extension \<and> arrayIncludes TEXT_EXT_HINTS (toLowerCase (orEmpty extension)))"

text \<open>
  The media type as the specification words it: the sniffed signature's type if one
  matched, else the declared type if present, else \<^verbatim>\<open>text/plain\<close> when the extension
  is on the allow-list, else \<^verbatim>\<open>application/octet-stream\<close>. A string that is
  undefined or empty counts as absent (\<open>present\<close>).
\<close>

definition present :: "string option \<Rightarrow> string option" where
  "present x = (if truthy x then x else None)"

definition mediaTypeSpec :: "string option \<Rightarrow> string option \<Rightarrow> string option \<Rightarrow> string" where
  "mediaTypeSpec sniffed declared extension =
     (case sniffed of
        Some t \<Rightarrow> t
      | None \<Rightarrow>
          (case declared of
             Some d \<Rightarrow> d
           | None \<Rightarrow>
               if arrayIncludes TEXT_EXT_HINTS (orEmpty extension) then ''text/plain''
               else ''application/octet-stream''))"

subsection \<open>Lines\<close>

text \<open>\<^verbatim>\<open>value.split("\n")\<close>: the pieces between line feeds, at least one.\<close>

fun splitLF :: "string \<Rightarrow> string list" where
  "splitLF [] = [[]]"
| "splitLF (c # cs) =
     (if c = LF then [] # splitLF cs
      else case splitLF cs of [] \<Rightarrow> [[c]] | l # ls \<Rightarrow> (c # l) # ls)"

definition splitPreserve :: "string \<Rightarrow> string list" where
  "splitPreserve v =
     (if v = [] then []
      else let lines = splitLF v
           in if lines \<noteq> [] \<and> last lines = [] then butlast lines else lines)"

text \<open>\<^verbatim>\<open>value.replace(/\r\n/g, "\n").replace(/\r/g, "\n")\<close>.\<close>

fun replaceCRLF :: "string \<Rightarrow> string" where
  "replaceCRLF (a # b # cs) =
     (if a = CR \<and> b = LF then LF # replaceCRLF cs else a # replaceCRLF (b # cs))"
| "replaceCRLF cs = cs"

definition replaceCR :: "string \<Rightarrow> string" where
  "replaceCR s = map (\<lambda>c. if c = CR then LF else c) s"

definition normalizeNewlines :: "string \<Rightarrow> string" where
  "normalizeNewlines v = replaceCR (replaceCRLF v)"

text \<open>
  Rewriting a text to the Windows newline style (every line feed becomes carriage
  return, line feed), and the texts in which no line feed already follows a carriage
  return.
\<close>

definition crlf :: "string \<Rightarrow> string" where
  "crlf s = concat (map (\<lambda>c. if c = LF then [CR, LF] else [c]) s)"

fun noCRLF :: "string \<Rightarrow> bool" where
  "noCRLF (a # b # cs) = (\<not> (a = CR \<and> b = LF) \<and> noCRLF (b # cs))"
| "noCRLF cs = True"

subsection \<open>The reconciler\<close>

datatype DiffLineType = Unchanged | Added | Removed | Modified

record DiffLine =
  type :: DiffLineType
  oldNumber :: "nat option"
  newNumber :: "nat option"
  before :: "string option"
  after :: "string option"

text \<open>
  The change objects of the package \<^verbatim>\<open>diff\<close>: a run of lines as one string, flagged as
  added, removed or neither.
\<close>

record Change =
  "value" :: string
  added :: bool
  removed :: bool

text \<open>The local variables that the loop of \<^verbatim>\<open>computeTextDiff\<close> updates.\<close>

record Loop =
  diff :: "DiffLine list"
  added :: nat
  removed :: nat
  modified :: nat
  oldLine :: nat
  newLine :: nat

record DiffSummary =
  identical :: bool
  totalLines :: nat
  added :: nat
  removed :: nat
  modified :: nat
  changePercent :: int

record DiffOutput =
  lines :: "DiffLine list"
  summary :: DiffSummary

text \<open>\<^verbatim>\<open>xs[j] ?? null\<close>: reading past the end of an array gives \<^verbatim>\<open>undefined\<close>.\<close>

definition nthOrNull :: "string list \<Rightarrow> nat \<Rightarrow> string option" where
  "nthOrNull xs j = (if j < length xs then Some (xs ! j) else None)"

definition pushModified :: "string \<Rightarrow> string \<Rightarrow> Loop \<Rightarrow> Loop" where
  "pushModified b a st =
     st\<lparr>diff := diff st @
            [\<lparr>type = Modified, oldNumber = Some (oldLine st), newNumber = Some (newLine st),
              before = Some b, after = Some a\<rparr>],
        oldLine := oldLine st + 1,
        newLine := newLine st + 1,
        Loop.modified := Loop.modified st + 1\<rparr>"

definition pushRemoved :: "string \<Rightarrow> Loop \<Rightarrow> Loop" where
  "pushRemoved line st =
     st\<lparr>diff := diff st @
            [\<lparr>type = Removed, oldNumber = Some (oldLine st), newNumber = None,
              before = Some line, after = None\<rparr>],
        oldLine := oldLine st + 1,
        Loop.removed := Loop.removed st + 1\<rparr>"

definition pushAdded :: "string \<Rightarrow> Loop \<Rightarrow> Loop" where
  "pushAdded line st =
     st\<lparr>diff := diff st @
            [\<lparr>type = Added, oldNumber = None, newNumber = Some (newLine st),
              before = None, after = Some line\<rparr>],
        newLine := newLine st + 1,
        Loop.added := Loop.added st + 1\<rparr>"

definition pushUnchanged :: "string \<Rightarrow> Loop \<Rightarrow> Loop" where
  "pushUnchanged line st =
     st\<lparr>diff := diff st @
            [\<lparr>type = Unchanged, oldNumber = Some (oldLine st), newNumber = Some (newLine st),
              before = Some line, after = Some line\<rparr>],
        oldLine := oldLine st + 1,
        newLine := newLine st + 1\<rparr>"

text \<open>The body of the inner loop over \<open>j\<close>, and the modification group it builds.\<close>

definition groupStep :: "string list \<Rightarrow> string list \<Rightarrow> nat \<Rightarrow> Loop \<Rightarrow> Loop" where
  "groupStep removedLines addedLines j st =
     (case (nthOrNull removedLines j, nthOrNull addedLines j) of
        (Some b, Some a) \<Rightarrow> pushModified b a st
      | (Some b, None) \<Rightarrow> pushRemoved b st
      | (None, Some a) \<Rightarrow> pushAdded a st
      | (None, None) \<Rightarrow> st)"

definition modificationGroup :: "Change \<Rightarrow> Change \<Rightarrow> Loop \<Rightarrow> Loop" where
  "modificationGroup current next st =
     (let removedLines = splitPreserve (value current);
          addedLines = splitPreserve (value next);
          mx = max (length removedLines) (length addedLines)
      in fold (groupStep removedLines addedLines) [0..<mx] st)"

text \<open>The three branches for a change that does not open a modification group.\<close>

definition singleChange :: "Change \<Rightarrow> Loop \<Rightarrow> Loop" where
  "singleChange current st =
     (if Change.added current then fold pushAdded (splitPreserve (value current)) st
      else if Change.removed current then fold pushRemoved (splitPreserve (value current)) st
      else fold pushUnchanged (splitPreserve (value current)) st)"

text \<open>
  The loop over \<^verbatim>\<open>changes\<close>: a removed change followed by an added one is consumed as a
  pair (\<^verbatim>\<open>i += 1; continue\<close>), any other change alone.
\<close>

fun diffLoop :: "Change list \<Rightarrow> Loop \<Rightarrow> Loop" where
  "diffLoop [] st = st"
| "diffLoop [current] st = singleChange current st"
| "diffLoop (current # next # rest) st =
     (if Change.removed current \<and> Change.added next
      then diffLoop rest (modificationGroup current next st)
      else diffLoop (next # rest) (singleChange current st))"

definition initialLoop :: Loop where
  "initialLoop =
     \<lparr>diff = [], Loop.added = 0, Loop.removed = 0, Loop.modified = 0, oldLine = 1, newLine = 1\<rparr>"

text \<open>
  \<^verbatim>\<open>Math.min(100, Math.max(0, Math.round((changesCount / totalLines) * 100)))\<close>, in
  double arithmetic: the quotient is rounded, and so is its product with 100.
\<close>

definition percentOf :: "nat \<Rightarrow> nat \<Rightarrow> int" where
  "percentOf changesCount lineCount =
     (if lineCount = 0 then 0
      else min 100
             (max 0 (Math_round (fl (fl (of_nat changesCount / of_nat lineCount) * 100)))))"

text \<open>
  \<^verbatim>\<open>computeTextDiff\<close>. The function \<^verbatim>\<open>diffLines\<close> is imported from the package
  \<^verbatim>\<open>diff\<close>, which is not part of this repository: it is a parameter here.
\<close>

definition computeTextDiff ::
  "(string \<Rightarrow> string \<Rightarrow> Change list) \<Rightarrow> string \<Rightarrow> string \<Rightarrow> DiffOutput" where
  "computeTextDiff diffLines original comparison =
     (let normalizedLeft = normalizeNewlines original;
          normalizedRight = normalizeNewlines comparison;
          leftLines = splitPreserve normalizedLeft;
          rightLines = splitPreserve normalizedRight;
          changes = diffLines normalizedLeft normalizedRight;
          st = diffLoop changes initialLoop;
          lineCount = max (length leftLines) (length rightLines);
          changesCount = Loop.added st + Loop.removed st + Loop.modified st
      in \<lparr>lines = diff st,
          summary =
            \<lparr>identical = (changesCount = 0),
             totalLines = lineCount,
             DiffSummary.added = Loop.added st,
             DiffSummary.removed = Loop.removed st,
             DiffSummary.modified = Loop.modified st,
             changePercent = percentOf changesCount lineCount\<rparr>\<rparr>)"

subsection \<open>A reference line diff\<close>

text \<open>
  To run \<^verbatim>\<open>computeTextDiff\<close> on concrete texts its parameter needs a value. \<open>lineDiff\<close>
  is a longest-common-subsequence diff over the lines of the two texts, each line taken
  with its terminator as \<^verbatim>\<open>diffLines\<close> does by default; removals come before insertions
  and neighbouring operations of one kind are merged into one change.
\<close>

fun tokenize :: "string \<Rightarrow> string list" where
  "tokenize [] = []"
| "tokenize (c # cs) =
     (if c = LF then [c] # tokenize cs
      else case tokenize cs of [] \<Rightarrow> [[c]] | t # ts \<Rightarrow> (c # t) # ts)"

datatype EditOp = Equal string | Inserted string | Deleted string

fun editCost :: "EditOp list \<Rightarrow> nat" where
  "editCost [] = 0"
| "editCost (Equal t # ops) = editCost ops"
| "editCost (op # ops) = Suc (editCost ops)"

fun editScript :: "string list \<Rightarrow> string list \<Rightarrow> EditOp list" where
  "editScript [] ys = map Inserted ys"
| "editScript xs [] = map Deleted xs"
| "editScript (x # xs) (y # ys) =
     (if x = y then Equal x # editScript xs ys
      else let d = Deleted x # editScript xs (y # ys);
               i = Inserted y # editScript (x # xs) ys
           in if editCost d \<le> editCost i then d else i)"

fun mergeOps :: "EditOp list \<Rightarrow> Change list" where
  "mergeOps [] = []"
| "mergeOps (Equal t # ops) =
     (case mergeOps ops of
        c # cs \<Rightarrow>
          if \<not> Change.added c \<and> \<not> Change.removed c then c\<lparr>value := t @ value c\<rparr> # cs
          else \<lparr>value = t, added = False, removed = False\<rparr> # c # cs
      | [] \<Rightarrow> [\<lparr>value = t, added = False, removed = False\<rparr>])"
| "mergeOps (Inserted t # ops) =
     (case mergeOps ops of
        c # cs \<Rightarrow>
          if Change.added c then c\<lparr>value := t @ value c\<rparr> # cs
          else \<lparr>value = t, added = True, removed = False\<rparr> # c # cs
      | [] \<Rightarrow> [\<lparr>value = t, added = True, removed = False\<rparr>])"
| "mergeOps (Deleted t # ops) =
     (case mergeOps ops of
        c # cs \<Rightarrow>
          if Change.removed c then c\<lparr>value := t @ value c\<rparr> # cs
          else \<lparr>value = t, added = False, removed = True\<rparr> # c # cs
      | [] \<Rightarrow> [\<lparr>value = t, added = False, removed = True\<rparr>])"

definition lineDiff :: "string \<Rightarrow> string \<Rightarrow> Change list" where
  "lineDiff oldStr newStr = mergeOps (editScript (tokenize oldStr) (tokenize newStr))"

text \<open>The tokens of the old and of the new text that an edit script accounts for.\<close>

fun oldTokens :: "EditOp list \<Rightarrow> string list" where
  "oldTokens [] = []"
| "oldTokens (Inserted t # ops) = oldTokens ops"
| "oldTokens (Equal t # ops) = t # oldTokens ops"
| "oldTokens (Deleted t # ops) = t # oldTokens ops"

fun newTokens :: "EditOp list \<Rightarrow> string list" where
  "newTokens [] = []"
| "newTokens (Deleted t # ops) = newTokens ops"
| "newTokens (Equal t # ops) = t # newTokens ops"
| "newTokens (Inserted t # ops) = t # newTokens ops"

subsection \<open>What the loop emits\<close>

text \<open>
  The lines a run contributes, as the specification describes them: numbered from the
  counters on entry, the \<open>j\<close>-th removed line of a modification group paired with the
  \<open>j\<close>-th added one, the leftover of the longer side after the pairs.
\<close>

definition removedRun :: "nat \<Rightarrow> string list \<Rightarrow> DiffLine list" where
  "removedRun old ls =
     map (\<lambda>(k, l). \<lparr>type = Removed, oldNumber = Some k, newNumber = None,
                       before = Some l, after = None\<rparr>) (enumerate old ls)"

definition addedRun :: "nat \<Rightarrow> string list \<Rightarrow> DiffLine list" where
  "addedRun new ls =
     map (\<lambda>(k, l). \<lparr>type = Added, oldNumber = None, newNumber = Some k,
                       before = None, after = Some l\<rparr>) (enumerate new ls)"

definition unchangedRun :: "nat \<Rightarrow> nat \<Rightarrow> string list \<Rightarrow> DiffLine list" where
  "unchangedRun old new ls =
     map (\<lambda>(k, l). \<lparr>type = Unchanged, oldNumber = Some (old + k), newNumber = Some (new + k),
                       before = Some l, after = Some l\<rparr>) (enumerate 0 ls)"

definition modifiedRun :: "nat \<Rightarrow> nat \<Rightarrow> string list \<Rightarrow> string list \<Rightarrow> DiffLine list" where
  "modifiedRun old new bs as =
     map (\<lambda>(k, b, a). \<lparr>type = Modified, oldNumber = Some (old + k), newNumber = Some (new + k),
                          before = Some b, after = Some a\<rparr>) (enumerate 0 (zip bs as))"

definition groupResult :: "string list \<Rightarrow> string list \<Rightarrow> Loop \<Rightarrow> Loop" where
  "groupResult bs as st =
     st\<lparr>diff := diff st @ modifiedRun (oldLine st) (newLine st) bs as
                  @ removedRun (oldLine st + length as) (drop (length as) bs)
                  @ addedRun (newLine st + length bs) (drop (length bs) as),
        oldLine := oldLine st + length bs,
        newLine := newLine st + length as,
        Loop.modified := Loop.modified st + min (length bs) (length as),
        Loop.removed := Loop.removed st + (length bs - length as),
        Loop.added := Loop.added st + (length as - length bs)\<rparr>"

definition insertedResult :: "string list \<Rightarrow> Loop \<Rightarrow> Loop" where
  "insertedResult ls st =
     st\<lparr>diff := diff st @ addedRun (newLine st) ls,
        newLine := newLine st + length ls,
        Loop.added := Loop.added st + length ls\<rparr>"

definition deletedResult :: "string list \<Rightarrow> Loop \<Rightarrow> Loop" where
  "deletedResult ls st =
     st\<lparr>diff := diff st @ removedRun (oldLine st) ls,
        oldLine := oldLine st + length ls,
        Loop.removed := Loop.removed st + length ls\<rparr>"

definition equalResult :: "string list \<Rightarrow> Loop \<Rightarrow> Loop" where
  "equalResult ls st =
     st\<lparr>diff := diff st @ unchangedRun (oldLine st) (newLine st) ls,
        oldLine := oldLine st + length ls,
        newLine := newLine st + length ls\<rparr>"

definition changesCountOf :: "Loop \<Rightarrow> nat" where
  "changesCountOf st = Loop.added st + Loop.removed st + Loop.modified st"

definition changedLines :: "Loop \<Rightarrow> nat" where
  "changedLines st = length (filter (\<lambda>l. type l \<noteq> Unchanged) (diff st))"

definition changed :: "Change \<Rightarrow> bool" where
  "changed c = ((Change.added c \<or> Change.removed c) \<and> value c \<noteq> [])"

text \<open>
  Two contracts a line diff can meet: a change is unchanged when it is flagged neither
  added nor removed; a change list reconstructs the two texts when the values not
  flagged added concatenate to the old text and those not flagged removed to the new.
\<close>

definition unchangedChange :: "Change \<Rightarrow> bool" where
  "unchangedChange c = (\<not> Change.added c \<and> \<not> Change.removed c)"

definition reconstructs :: "Change list \<Rightarrow> string \<Rightarrow> string \<Rightarrow> bool" where
  "reconstructs cs oldStr newStr =
     (concat (map value (filter (\<lambda>c. \<not> Change.added c) cs)) = oldStr \<and>
      concat (map value (filter (\<lambda>c. \<not> Change.removed c) cs)) = newStr)"

subsection \<open>Facts about the classifier\<close>

lemma controlRatio_sample:
  "controlRatio buffer =
     (let sample = take MAX_SNIFF_BYTES buffer
      in if sample = [] then 0
         else case countControl sample 0 of
                None \<Rightarrow> 1
              | Some controlCount \<Rightarrow> fl (of_nat controlCount / of_nat (length sample)))"
proof -
  have "(if length buffer > MAX_SNIFF_BYTES then take MAX_SNIFF_BYTES buffer else buffer)
          = take MAX_SNIFF_BYTES buffer"
    by simp
  then show ?thesis
    unfolding controlRatio_def by (simp only: Let_def length_0_conv)
qed

lemma controlRatio_take: "controlRatio buffer = controlRatio (take MAX_SNIFF_BYTES buffer)"
  by (simp add: controlRatio_sample)

lemma countControl_None: "countControl bs n = None \<longleftrightarrow> 0 \<in> set bs"
  by (induction bs arbitrary: n) auto

lemma countControl_replicate: "countControl (replicate k 97) n = Some n"
  by (induction k) (simp_all add: CONTROL_BYTES_def)

lemma fl_zero: "fl 0 = 0"
  by (simp add: fl_def)

lemma fl_tenth: "fl (1 / 10) = 3602879701896397 / 36028797018963968"
  by code_simp

lemma controlRatio_nul:
  assumes "0 \<in> set (take MAX_SNIFF_BYTES buffer)"
  shows "controlRatio buffer = 1"
proof -
  from assms have "take MAX_SNIFF_BYTES buffer \<noteq> []"
    by (metis empty_iff empty_set)
  moreover from assms have "countControl (take MAX_SNIFF_BYTES buffer) 0 = None"
    by (simp only: countControl_None)
  ultimately show ?thesis
    by (simp add: controlRatio_sample)
qed

lemma controlRatio_letters: "controlRatio (replicate MAX_SNIFF_BYTES 97 @ bs) = 0"
proof -
  have "take MAX_SNIFF_BYTES (replicate MAX_SNIFF_BYTES (97 :: byte) @ bs)
          = replicate MAX_SNIFF_BYTES 97"
    by simp
  moreover have "MAX_SNIFF_BYTES \<noteq> 0"
    by (simp add: MAX_SNIFF_BYTES_def)
  ultimately show ?thesis
    by (simp add: controlRatio_sample countControl_replicate fl_zero Let_def)
qed

lemma ext_hint_truthy:
  "arrayIncludes TEXT_EXT_HINTS (toLowerCase (orEmpty extension)) \<Longrightarrow> truthy extension"
  by (cases extension)
    (auto simp: arrayIncludes_def TEXT_EXT_HINTS_def toLowerCase_def orEmpty_def truthy_def)

text \<open>The decision of \<^verbatim>\<open>isProbablyText\<close> as one formula: the first of its two extension
  tests is subsumed by the second.\<close>

lemma isProbablyText_eq:
  "isProbablyText buffer declared extension =
     (textMime declared \<or>
      (\<not> binaryMime declared \<and> (textExt extension \<or> controlRatio buffer < fl (1 / 10))))"
  using ext_hint_truthy [of extension]
  unfolding isProbablyText_def textMime_def binaryMime_def textExt_def Let_def
  by auto

lemma toLowerCase_text_prefix:
  assumes "startsWith declared ''text/''"
  shows "startsWith (toLowerCase declared) ''text/''"
proof -
  have "take (length ''text/'') (toLowerCase declared)
          = map toLowerChar (take (length ''text/'') declared)"
    by (simp only: toLowerCase_def take_map)
  also have "\<dots> = map toLowerChar ''text/''"
    using assms by (simp only: startsWith_def)
  also have "\<dots> = ''text/''"
    by (simp add: toLowerChar_def)
  finally show ?thesis
    by (simp only: startsWith_def)
qed

lemma no_hints: "\<not> textMime None" "\<not> binaryMime None" "\<not> textExt None"
  by (simp_all add: textMime_def binaryMime_def textExt_def truthy_def orEmpty_def
      toLowerCase_def startsWith_def TEXT_MIME_HINTS_def BINARY_MIME_HINTS_def)

lemma text_plain_hint: "textMime (Some ''text/plain'')"
  by (simp add: textMime_def orEmpty_def toLowerCase_def toLowerChar_def startsWith_def
      TEXT_MIME_HINTS_def)

lemma msword_hint:
  "\<not> textMime (Some ''application/msword'')" "\<not> binaryMime (Some ''application/msword'')"
  by (simp_all add: textMime_def binaryMime_def orEmpty_def toLowerCase_def toLowerChar_def
      startsWith_def TEXT_MIME_HINTS_def BINARY_MIME_HINTS_def)

lemma octet_stream_hint:
  "\<not> textMime (Some ''application/octet-stream'')"
  "\<not> binaryMime (Some ''application/octet-stream'')"
  by (simp_all add: textMime_def binaryMime_def orEmpty_def toLowerCase_def toLowerChar_def
      startsWith_def TEXT_MIME_HINTS_def BINARY_MIME_HINTS_def)

lemma txt_hint: "textExt (Some ''txt'')"
  by (simp add: textExt_def truthy_def orEmpty_def toLowerCase_def toLowerChar_def
      arrayIncludes_def TEXT_EXT_HINTS_def)

lemma isProbablyText_text_prefix:
  "startsWith declared ''text/'' \<Longrightarrow> isProbablyText buffer (Some declared) extension"
proof -
  assume "startsWith declared ''text/''"
  then have "startsWith (toLowerCase declared) ''text/''"
    by (rule toLowerCase_text_prefix)
  then have "textMime (Some declared)"
    by (simp add: textMime_def orEmpty_def TEXT_MIME_HINTS_def)
  then show ?thesis
    by (simp add: isProbablyText_eq)
qed

lemma isProbablyText_nul_byte:
  "0 \<in> set (take MAX_SNIFF_BYTES buffer) \<Longrightarrow>
   isProbablyText buffer declared extension =
     (textMime declared \<or> (\<not> binaryMime declared \<and> textExt extension))"
  by (simp add: isProbablyText_eq controlRatio_nul fl_tenth)

lemma isProbablyText_extension_then_content:
  "\<not> textMime declared \<Longrightarrow> \<not> binaryMime declared \<Longrightarrow>
   isProbablyText buffer declared extension =
     (textExt extension \<or> controlRatio (take MAX_SNIFF_BYTES buffer) < fl (1 / 10))"
  using controlRatio_take [of buffer] by (simp add: isProbablyText_eq)

text \<open>
  The classification in terms of \<^verbatim>\<open>isProbablyText\<close>: on the sniffed media type always,
  and on the declared type when no signature matched.
\<close>

lemma classify_eq:
  "(classify ft buffer declared extension = Text) =
     isProbablyText buffer (Some (sniffMime ft buffer declared extension)) extension"
  by (simp add: classify_def classifyKind_def Let_def)

lemma sniffMime_no_signature:
  "\<not> signatureMatched ft buffer \<Longrightarrow>
   sniffMime ft buffer declared extension =
     (if truthy declared then orEmpty declared
      else if arrayIncludes TEXT_EXT_HINTS (toLowerCase (orEmpty extension)) then ''text/plain''
      else ''application/octet-stream'')"
  by (simp add: sniffMime_def signatureMatched_def Let_def)

lemma not_truthy_hints: "\<not> truthy declared \<Longrightarrow> \<not> textMime declared \<and> \<not> binaryMime declared"
  by (cases declared)
    (auto simp: truthy_def textMime_def binaryMime_def orEmpty_def toLowerCase_def
      startsWith_def TEXT_MIME_HINTS_def BINARY_MIME_HINTS_def)

lemma textExt_iff: "textExt extension = arrayIncludes TEXT_EXT_HINTS (toLowerCase (orEmpty extension))"
  using ext_hint_truthy [of extension] by (auto simp: textExt_def)

lemma isProbablyText_sniffed:
  assumes "\<not> signatureMatched ft buffer"
  shows "isProbablyText buffer (Some (sniffMime ft buffer declared extension)) extension
           = isProbablyText buffer declared extension"
proof (cases "truthy declared")
  case True
  then have "Some (orEmpty declared) = declared"
    by (cases declared) (simp_all add: truthy_def orEmpty_def)
  with True assms show ?thesis
    by (simp add: sniffMime_no_signature)
next
  case False
  then have d: "\<not> textMime declared" "\<not> binaryMime declared"
    using not_truthy_hints by blast+
  show ?thesis
  proof (cases "textExt extension")
    case True
    with False assms d show ?thesis
      by (simp add: sniffMime_no_signature textExt_iff [symmetric] isProbablyText_eq
          text_plain_hint)
  next
    case False
    with \<open>\<not> truthy declared\<close> assms d show ?thesis
      by (simp add: sniffMime_no_signature textExt_iff [symmetric] isProbablyText_eq
          octet_stream_hint)
  qed
qed

lemma classify_no_signature:
  "\<not> signatureMatched ft buffer \<Longrightarrow>
   (classify ft buffer declared extension = Text) = isProbablyText buffer declared extension"
  by (simp add: classify_eq isProbablyText_sniffed)

lemma pngSniffer_small: "length buffer < 8 \<Longrightarrow> \<not> signatureMatched pngSniffer buffer"
proof -
  assume "length buffer < 8"
  then have "length (take 8 buffer) \<noteq> length pngSignature"
    by (simp add: pngSignature_def)
  then have "take 8 buffer \<noteq> pngSignature"
    by (metis (full_types))
  then show ?thesis
    by (simp add: signatureMatched_def pngSniffer_def truthy_def)
qed

lemma pngSniffer_letters:
  "\<not> signatureMatched pngSniffer (replicate MAX_SNIFF_BYTES 97 @ bs)"
proof -
  have "take 8 (replicate MAX_SNIFF_BYTES 97 @ bs) ! 0 = (97 :: byte)"
    by (simp add: MAX_SNIFF_BYTES_def nth_append)
  moreover have "pngSignature ! 0 = (0x89 :: byte)"
    by (simp add: pngSignature_def)
  ultimately have "take 8 (replicate MAX_SNIFF_BYTES 97 @ bs) \<noteq> pngSignature"
    by auto
  then show ?thesis
    by (simp add: signatureMatched_def pngSniffer_def truthy_def)
qed

subsection \<open>Claims about the classifier\<close>

text \<open>
  C8, as stated, fails: the start of a PNG file declared as \<^verbatim>\<open>text/plain\<close> is binary,
  because the sniffed signature's type takes the place of the declared one.
\<close>

theorem text_prefix_counterexample:
  "startsWith ''text/plain'' ''text/'' \<and>
   classify pngSniffer pngHeader (Some ''text/plain'') None = Binary"
  by code_simp

text \<open>
  C8, amended. For every byte buffer and every hint, the classifier returns isText =
  true whenever the media type it classifies with starts with \<^verbatim>\<open>text/\<close>; that media
  type is the declared one when no signature matched. So for every byte buffer on which
  no signature matched and every hint whose declared media type starts with \<^verbatim>\<open>text/\<close>,
  the classifier returns isText = true, whatever the bytes are.
\<close>

theorem classify_text_prefix:
  "(startsWith (sniffMime fileTypeFromBuffer buffer provided extension) ''text/'' \<longrightarrow>
      classify fileTypeFromBuffer buffer provided extension = Text) \<and>
   (\<not> signatureMatched fileTypeFromBuffer buffer \<and> startsWith declared ''text/'' \<longrightarrow>
      classify fileTypeFromBuffer buffer (Some declared) extension = Text)"
proof (intro conjI impI)
  assume "startsWith (sniffMime fileTypeFromBuffer buffer provided extension) ''text/''"
  then show "classify fileTypeFromBuffer buffer provided extension = Text"
    by (simp add: classify_eq isProbablyText_text_prefix)
next
  assume "\<not> signatureMatched fileTypeFromBuffer buffer \<and> startsWith declared ''text/''"
  then show "classify fileTypeFromBuffer buffer (Some declared) extension = Text"
    by (simp add: classify_no_signature isProbablyText_text_prefix)
qed

theorem classify_text_prefix_witness:
  "startsWith (sniffMime pngSniffer [0, 255, 1, 2] (Some ''text/csv'') None) ''text/'' \<and>
   \<not> signatureMatched pngSniffer [0, 255, 1, 2] \<and> startsWith ''text/csv'' ''text/'' \<and>
   classify pngSniffer [0, 255, 1, 2] (Some ''text/csv'') None = Text"
proof -
  have n: "\<not> signatureMatched pngSniffer [0, 255, 1, 2]"
    by (rule pngSniffer_small) simp
  have h: "startsWith ''text/csv'' ''text/''"
    by (simp add: startsWith_def)
  have m: "sniffMime pngSniffer [0, 255, 1, 2] (Some ''text/csv'') None = ''text/csv''"
    using n by (simp add: sniffMime_no_signature truthy_def orEmpty_def)
  from n h m
    classify_text_prefix [of pngSniffer "[0, 255, 1, 2]" "Some ''text/csv''" None "''text/csv''"]
  show ?thesis
    by simp
qed

text \<open>
  C1, as stated, fails: a buffer holding a NUL byte is classified as text when the
  declared media type is a text type, and also when the NUL byte lies beyond the first
  4096 bytes of a buffer of letters.
\<close>

theorem nul_byte_counterexample:
  "0 \<in> set [0 :: byte] \<and> isProbablyText [0] (Some ''text/plain'') None \<and>
   classify pngSniffer [0] (Some ''text/plain'') None = Text \<and>
   0 \<in> set (replicate MAX_SNIFF_BYTES 97 @ [0 :: byte]) \<and>
   isProbablyText (replicate MAX_SNIFF_BYTES 97 @ [0]) None None \<and>
   classify pngSniffer (replicate MAX_SNIFF_BYTES 97 @ [0]) None None = Text"
proof -
  have "\<not> signatureMatched pngSniffer [0]"
    by (rule pngSniffer_small) simp
  then show ?thesis
    by (simp add: classify_no_signature pngSniffer_letters isProbablyText_eq text_plain_hint
        no_hints controlRatio_letters fl_tenth)
qed

text \<open>
  C1, amended. For every byte buffer with a NUL byte among its first 4096 bytes the
  content never yields the text verdict: the classifier returns isText = true exactly
  when the media type it classifies with (the sniffed signature's type if a signature
  matched, else the declared type, else the type chosen from the extension) matches the
  text-prefix list, or matches neither prefix list while the extension is on the text
  allow-list; otherwise it returns false. When no signature matched, that is: exactly
  when the declared media type matches the text-prefix list, or matches neither prefix
  list while the extension is on the text allow-list.
\<close>

theorem classify_nul_byte:
  "0 \<in> set (take MAX_SNIFF_BYTES buffer) \<Longrightarrow>
   (classify fileTypeFromBuffer buffer declared extension = Text) =
     (textMime (Some (sniffMime fileTypeFromBuffer buffer declared extension)) \<or>
      (\<not> binaryMime (Some (sniffMime fileTypeFromBuffer buffer declared extension)) \<and>
       textExt extension)) \<and>
   (\<not> signatureMatched fileTypeFromBuffer buffer \<longrightarrow>
      (classify fileTypeFromBuffer buffer declared extension = Text) =
        (textMime declared \<or> (\<not> binaryMime declared \<and> textExt extension)))"
  by (simp add: classify_no_signature) (simp add: classify_eq isProbablyText_nul_byte)

theorem classify_nul_byte_witness:
  "0 \<in> set (take MAX_SNIFF_BYTES [0 :: byte, 120, 3, 255, 10]) \<and>
   \<not> signatureMatched pngSniffer [0, 120, 3, 255, 10] \<and>
   classify pngSniffer [0, 120, 3, 255, 10] (Some ''application/octet-stream'') None = Binary"
proof -
  have h: "0 \<in> set (take MAX_SNIFF_BYTES [0 :: byte, 120, 3, 255, 10])"
    by (simp add: MAX_SNIFF_BYTES_def)
  have n: "\<not> signatureMatched pngSniffer [0, 120, 3, 255, 10]"
    by (rule pngSniffer_small) simp
  have m: "sniffMime pngSniffer [0, 120, 3, 255, 10] (Some ''application/octet-stream'') None
      = ''application/octet-stream''"
    using n by (simp add: sniffMime_no_signature truthy_def orEmpty_def)
  from h n classify_nul_byte [OF h, of pngSniffer "Some ''application/octet-stream''" None]
  have "classify pngSniffer [0, 120, 3, 255, 10] (Some ''application/octet-stream'') None \<noteq> Text"
    by (simp add: m octet_stream_hint no_hints)
  with h n show ?thesis
    by (cases "classify pngSniffer [0, 120, 3, 255, 10] (Some ''application/octet-stream'') None")
      simp_all
qed

text \<open>
  C5, as stated, fails: with a declared media type that is present, not a generic
  placeholder and on neither prefix list, the extension still decides. The same bytes
  are text with the extension \<^verbatim>\<open>txt\<close> and binary without it.
\<close>

theorem extension_gate_counterexample:
  "isProbablyText [0] (Some ''application/msword'') (Some ''txt'') \<and>
   \<not> isProbablyText [0] (Some ''application/msword'') None \<and>
   classify pngSniffer [0] (Some ''application/msword'') (Some ''txt'') = Text \<and>
   classify pngSniffer [0] (Some ''application/msword'') None = Binary"
proof -
  have "0 \<in> set (take MAX_SNIFF_BYTES [0 :: byte])"
    by (simp add: MAX_SNIFF_BYTES_def)
  then have "controlRatio [0] = 1"
    by (rule controlRatio_nul)
  then have i: "isProbablyText [0] (Some ''application/msword'') (Some ''txt'') \<and>
      \<not> isProbablyText [0] (Some ''application/msword'') None"
    by (simp add: isProbablyText_eq msword_hint txt_hint no_hints fl_tenth)
  have n: "\<not> signatureMatched pngSniffer [0]"
    by (rule pngSniffer_small) simp
  from i n have "classify pngSniffer [0] (Some ''application/msword'') (Some ''txt'') = Text"
    and "classify pngSniffer [0] (Some ''application/msword'') None \<noteq> Text"
    by (simp_all add: classify_no_signature)
  with i show ?thesis
    by (cases "classify pngSniffer [0] (Some ''application/msword'') None") simp_all
qed

text \<open>
  C5, amended. The file extension is consulted whenever the media type the classifier
  works with (the sniffed signature's type if a signature matched, else the declared
  type, else the type chosen from the extension) matches neither the text-prefix list
  nor the binary-prefix list: an extension on the text allow-list then forces isText =
  true, and otherwise the verdict is decided by content sniffing over at most the first
  4096 bytes. When no signature matched, this holds of the declared media type, whether
  it is absent, empty, a generic placeholder or any other type on neither list.
\<close>

theorem classify_extension_then_content:
  "(\<not> textMime (Some (sniffMime fileTypeFromBuffer buffer declared extension)) \<and>
    \<not> binaryMime (Some (sniffMime fileTypeFromBuffer buffer declared extension)) \<longrightarrow>
      (classify fileTypeFromBuffer buffer declared extension = Text) =
        (textExt extension \<or> controlRatio (take MAX_SNIFF_BYTES buffer) < fl (1 / 10))) \<and>
   (\<not> signatureMatched fileTypeFromBuffer buffer \<and> \<not> textMime declared \<and> \<not> binaryMime declared \<longrightarrow>
      (classify fileTypeFromBuffer buffer declared extension = Text) =
        (textExt extension \<or> controlRatio (take MAX_SNIFF_BYTES buffer) < fl (1 / 10)))"
proof (intro conjI impI)
  assume "\<not> textMime (Some (sniffMime fileTypeFromBuffer buffer declared extension)) \<and>
    \<not> binaryMime (Some (sniffMime fileTypeFromBuffer buffer declared extension))"
  then show "(classify fileTypeFromBuffer buffer declared extension = Text) =
        (textExt extension \<or> controlRatio (take MAX_SNIFF_BYTES buffer) < fl (1 / 10))"
    by (simp add: classify_eq isProbablyText_extension_then_content)
next
  assume "\<not> signatureMatched fileTypeFromBuffer buffer \<and> \<not> textMime declared \<and>
    \<not> binaryMime declared"
  then show "(classify fileTypeFromBuffer buffer declared extension = Text) =
        (textExt extension \<or> controlRatio (take MAX_SNIFF_BYTES buffer) < fl (1 / 10))"
    by (simp add: classify_no_signature isProbablyText_extension_then_content)
qed

theorem classify_extension_then_content_witness:
  "\<not> signatureMatched pngSniffer (replicate MAX_SNIFF_BYTES 97 @ [0]) \<and>
   \<not> textMime (Some ''application/msword'') \<and> \<not> binaryMime (Some ''application/msword'') \<and>
   \<not> textMime (Some (sniffMime pngSniffer (replicate MAX_SNIFF_BYTES 97 @ [0])
        (Some ''application/msword'') None)) \<and>
   \<not> binaryMime (Some (sniffMime pngSniffer (replicate MAX_SNIFF_BYTES 97 @ [0])
        (Some ''application/msword'') None)) \<and>
   classify pngSniffer (replicate MAX_SNIFF_BYTES 97 @ [0]) (Some ''application/msword'') None
     = Text"
proof -
  let ?b = "replicate MAX_SNIFF_BYTES 97 @ [0 :: byte]"
  have n: "\<not> signatureMatched pngSniffer ?b"
    by (rule pngSniffer_letters)
  have m: "sniffMime pngSniffer ?b (Some ''application/msword'') None = ''application/msword''"
    using n by (simp add: sniffMime_no_signature truthy_def orEmpty_def)
  have c: "controlRatio (take MAX_SNIFF_BYTES ?b) = 0"
    using controlRatio_take [of ?b] by (simp only: controlRatio_letters)
  from n m classify_extension_then_content [of pngSniffer ?b "Some ''application/msword''" None]
  show ?thesis
    by (simp only: c msword_hint no_hints fl_tenth) simp
qed

text \<open>
  C10. Two buffers that agree on their first 4096 bytes get the same verdict under the
  same hints.
\<close>

theorem isProbablyText_first_bytes:
  "take MAX_SNIFF_BYTES b1 = take MAX_SNIFF_BYTES b2 \<Longrightarrow>
   isProbablyText b1 declared extension = isProbablyText b2 declared extension"
  using controlRatio_take [of b1] controlRatio_take [of b2] by (simp add: isProbablyText_eq)

theorem isProbablyText_first_bytes_witness:
  "take MAX_SNIFF_BYTES (replicate MAX_SNIFF_BYTES 97 @ [0 :: byte]) =
     take MAX_SNIFF_BYTES (replicate MAX_SNIFF_BYTES 97 @ [7, 7]) \<and>
   isProbablyText (replicate MAX_SNIFF_BYTES 97 @ [0]) None None =
     isProbablyText (replicate MAX_SNIFF_BYTES 97 @ [7, 7]) None None"
proof -
  have h: "take MAX_SNIFF_BYTES (replicate MAX_SNIFF_BYTES 97 @ [0 :: byte]) =
     take MAX_SNIFF_BYTES (replicate MAX_SNIFF_BYTES 97 @ [7, 7])"
    by simp
  from h isProbablyText_first_bytes [OF h] show ?thesis
    by blast
qed

text \<open>
  C9. The media type returned by \<^verbatim>\<open>sniffMime\<close> is the sniffed signature's type if a
  signature matched, else the declared type if present, else \<^verbatim>\<open>text/plain\<close> if the
  extension (lowercase, as the hint carries it) is on the text allow-list, else
  \<^verbatim>\<open>application/octet-stream\<close>; it is never empty.
\<close>

theorem sniffMime_mediaType:
  "toLowerCase (orEmpty extension) = orEmpty extension \<Longrightarrow>
   sniffMime fileTypeFromBuffer buffer provided extension =
     mediaTypeSpec (present (map_option ft_mime (fileTypeFromBuffer buffer)))
       (present provided) extension \<and>
   sniffMime fileTypeFromBuffer buffer provided extension \<noteq> []"
  by (auto simp: sniffMime_def mediaTypeSpec_def present_def truthy_def orEmpty_def Let_def
      split: option.splits)

theorem sniffMime_mediaType_witness:
  "toLowerCase (orEmpty (Some ''md'')) = orEmpty (Some ''md'') \<and>
   sniffMime (\<lambda>b. None) [35, 32, 72, 105] None (Some ''md'') = ''text/plain''"
proof -
  have h: "toLowerCase (orEmpty (Some ''md'')) = orEmpty (Some ''md'')"
    by (simp add: toLowerCase_def toLowerChar_def orEmpty_def)
  from h sniffMime_mediaType [OF h, of "\<lambda>b. None" "[35, 32, 72, 105]" None]
  show ?thesis
    by (simp add: mediaTypeSpec_def present_def truthy_def orEmpty_def arrayIncludes_def
        TEXT_EXT_HINTS_def)
qed

subsection \<open>Facts about the reconciler\<close>

lemma modifiedRun_Cons:
  "modifiedRun old new (b # bs) (a # as) =
     \<lparr>type = Modified, oldNumber = Some old, newNumber = Some new,
      before = Some b, after = Some a\<rparr> # modifiedRun (Suc old) (Suc new) bs as"
  by (simp add: modifiedRun_def enumerate_Suc_eq[of 0] map_idI comp_def split_def)

lemma unchangedRun_Cons:
  "unchangedRun old new (l # ls) =
     \<lparr>type = Unchanged, oldNumber = Some old, newNumber = Some new,
      before = Some l, after = Some l\<rparr> # unchangedRun (Suc old) (Suc new) ls"
  by (simp add: unchangedRun_def enumerate_Suc_eq[of 0] comp_def split_def)

lemma fold_pushRemoved:
  "fold pushRemoved ls st =
     st\<lparr>diff := diff st @ removedRun (oldLine st) ls,
        oldLine := oldLine st + length ls,
        Loop.removed := Loop.removed st + length ls\<rparr>"
  by (induction ls arbitrary: st) (simp_all add: removedRun_def pushRemoved_def)

lemma fold_pushAdded:
  "fold pushAdded ls st =
     st\<lparr>diff := diff st @ addedRun (newLine st) ls,
        newLine := newLine st + length ls,
        Loop.added := Loop.added st + length ls\<rparr>"
  by (induction ls arbitrary: st) (simp_all add: addedRun_def pushAdded_def)

lemma fold_pushUnchanged:
  "fold pushUnchanged ls st =
     st\<lparr>diff := diff st @ unchangedRun (oldLine st) (newLine st) ls,
        oldLine := oldLine st + length ls,
        newLine := newLine st + length ls\<rparr>"
  by (induction ls arbitrary: st) (simp_all add: unchangedRun_Cons pushUnchanged_def, simp add: unchangedRun_def)

lemma groupResult_Nil: "groupResult [] [] st = st"
  by (simp add: groupResult_def modifiedRun_def removedRun_def addedRun_def)

lemma groupResult_modified:
  "groupResult (b # bs) (a # as) st = groupResult bs as (pushModified b a st)"
  by (simp add: groupResult_def modifiedRun_Cons pushModified_def)

lemma groupResult_removed:
  "groupResult (b # bs) [] st = groupResult bs [] (pushRemoved b st)"
  by (simp add: groupResult_def modifiedRun_def removedRun_def addedRun_def pushRemoved_def)

lemma groupResult_added:
  "groupResult [] (a # as) st = groupResult [] as (pushAdded a st)"
  by (simp add: groupResult_def modifiedRun_def removedRun_def addedRun_def pushAdded_def)

lemma fold_groupStep:
  "fold (groupStep bs as) [i..<max (length bs) (length as)] st
     = groupResult (drop i bs) (drop i as) st"
proof (induction "max (length bs) (length as) - i" arbitrary: i st)
  case 0
  then show ?case
    by (simp add: groupResult_Nil)
next
  case (Suc k)
  then have lt: "i < max (length bs) (length as)" and k: "k = max (length bs) (length as) - Suc i"
    by linarith+
  have "fold (groupStep bs as) [i..<max (length bs) (length as)] st
          = fold (groupStep bs as) [Suc i..<max (length bs) (length as)] (groupStep bs as i st)"
    using lt by (simp add: upt_conv_Cons)
  also have "\<dots> = groupResult (drop (Suc i) bs) (drop (Suc i) as) (groupStep bs as i st)"
    using Suc.hyps(1) [OF k] .
  also have "\<dots> = groupResult (drop i bs) (drop i as) st"
  proof (cases "i < length bs")
    case b: True
    show ?thesis
    proof (cases "i < length as")
      case True
      with b show ?thesis
        by (simp add: groupStep_def nthOrNull_def groupResult_modified
            Cons_nth_drop_Suc [symmetric])
    next
      case False
      with b show ?thesis
        by (simp add: groupStep_def nthOrNull_def groupResult_removed
            Cons_nth_drop_Suc [symmetric])
    qed
  next
    case b: False
    with lt have "i < length as"
      by simp
    with b show ?thesis
      by (simp add: groupStep_def nthOrNull_def groupResult_added
          Cons_nth_drop_Suc [symmetric])
  qed
  finally show ?case .
qed

lemma modificationGroup_eq:
  "modificationGroup current next st =
     groupResult (splitPreserve (value current)) (splitPreserve (value next)) st"
  using fold_groupStep [of _ _ 0] by (simp add: modificationGroup_def Let_def)

text \<open>Splitting the loop at a boundary that is not a removed change followed by an added one.\<close>

lemma diffLoop_append:
  "pre = [] \<or> cs = [] \<or> \<not> (Change.removed (last pre) \<and> Change.added (hd cs)) \<Longrightarrow>
   diffLoop (pre @ cs) st = diffLoop cs (diffLoop pre st)"
proof (induction pre st rule: diffLoop.induct)
  case (1 st)
  then show ?case by simp
next
  case (2 current st)
  then show ?case
    by (cases cs) auto
next
  case (3 current nxt rest st)
  then show ?case
    by (cases rest) (auto split: if_splits)
qed

lemma singleChange_eq:
  "singleChange c st =
     (if Change.added c then insertedResult (splitPreserve (value c)) st
      else if Change.removed c then deletedResult (splitPreserve (value c)) st
      else equalResult (splitPreserve (value c)) st)"
  by (simp add: singleChange_def insertedResult_def deletedResult_def equalResult_def
      fold_pushAdded fold_pushRemoved fold_pushUnchanged)

lemma changesCountOf_single:
  "changesCountOf (singleChange c st) =
     changesCountOf st +
       (if Change.added c \<or> Change.removed c then length (splitPreserve (value c)) else 0)"
  by (simp add: changesCountOf_def singleChange_eq insertedResult_def deletedResult_def
      equalResult_def)

lemma changesCountOf_group:
  "changesCountOf (modificationGroup c n st) =
     changesCountOf st + max (length (splitPreserve (value c))) (length (splitPreserve (value n)))"
  by (simp add: changesCountOf_def modificationGroup_eq groupResult_def)

lemma changesCountOf_mono: "changesCountOf st \<le> changesCountOf (diffLoop cs st)"
proof (induction cs st rule: diffLoop.induct)
  case (1 st)
  then show ?case by simp
next
  case (2 current st)
  then show ?case by (simp add: changesCountOf_single)
next
  case (3 current nxt rest st)
  show ?case
  proof (cases "Change.removed current \<and> Change.added nxt")
    case True
    with 3 have "changesCountOf (modificationGroup current nxt st)
                   \<le> changesCountOf (diffLoop (current # nxt # rest) st)"
      by simp
    then show ?thesis
      by (simp add: changesCountOf_group)
  next
    case False
    with 3 have "changesCountOf (singleChange current st)
                   \<le> changesCountOf (diffLoop (current # nxt # rest) st)"
      by auto
    then show ?thesis
      by (simp add: changesCountOf_single split: if_splits)
  qed
qed

lemma splitLF_not_Nil: "splitLF v \<noteq> []"
  by (induction v) (auto split: list.splits)

lemma splitLF_single: "splitLF v = [l] \<Longrightarrow> v = l"
  by (induction v arbitrary: l) (auto simp: splitLF_not_Nil split: if_splits list.splits)

lemma splitPreserve_not_Nil: "v \<noteq> [] \<Longrightarrow> splitPreserve v \<noteq> []"
proof
  assume v: "v \<noteq> []" and e: "splitPreserve v = []"
  from splitLF_not_Nil obtain l ls where l: "splitLF v = ls @ [l]"
    by (metis rev_exhaust)
  with v e have "ls = [] \<and> l = []"
    by (auto simp: splitPreserve_def Let_def split: if_splits)
  with l have "splitLF v = [[]]"
    by simp
  then have "v = []"
    by (rule splitLF_single)
  with v show False
    by simp
qed

lemma changesCountOf_strict:
  "list_ex changed cs \<Longrightarrow> changesCountOf st < changesCountOf (diffLoop cs st)"
proof (induction cs st rule: diffLoop.induct)
  case (1 st)
  then show ?case by simp
next
  case (2 current st)
  then show ?case
    using splitPreserve_not_Nil [of "value current"]
    by (auto simp: changesCountOf_single changed_def)
next
  case (3 current nxt rest st)
  show ?case
  proof (cases "Change.removed current \<and> Change.added nxt")
    case True
    then have eq: "diffLoop (current # nxt # rest) st
                     = diffLoop rest (modificationGroup current nxt st)"
      by simp
    show ?thesis
    proof (cases "changed current \<or> changed nxt")
      case True
      then have "splitPreserve (value current) \<noteq> [] \<or> splitPreserve (value nxt) \<noteq> []"
        using splitPreserve_not_Nil by (auto simp: changed_def)
      then have "0 < max (length (splitPreserve (value current)))
                         (length (splitPreserve (value nxt)))"
        by (auto simp: max_def)
      then have "changesCountOf st < changesCountOf (modificationGroup current nxt st)"
        by (simp only: changesCountOf_group less_add_same_cancel1)
      also have "\<dots> \<le> changesCountOf (diffLoop rest (modificationGroup current nxt st))"
        by (rule changesCountOf_mono)
      finally show ?thesis
        by (simp only: eq)
    next
      case False
      with "3.prems" have "list_ex changed rest"
        by simp
      with True "3.IH"(1) have "changesCountOf (modificationGroup current nxt st)
                    < changesCountOf (diffLoop rest (modificationGroup current nxt st))"
        by simp
      then have "changesCountOf st
                   < changesCountOf (diffLoop rest (modificationGroup current nxt st))"
        by (simp add: changesCountOf_group)
      then show ?thesis
        by (simp only: eq)
    qed
  next
    case False
    then have eq: "diffLoop (current # nxt # rest) st
                     = diffLoop (nxt # rest) (singleChange current st)"
      by auto
    show ?thesis
    proof (cases "changed current")
      case True
      then have "changesCountOf st < changesCountOf (singleChange current st)"
        using splitPreserve_not_Nil [of "value current"]
        by (auto simp: changesCountOf_single changed_def)
      also have "\<dots> \<le> changesCountOf (diffLoop (nxt # rest) (singleChange current st))"
        by (rule changesCountOf_mono)
      finally show ?thesis
        by (simp only: eq)
    next
      case c: False
      with "3.prems" have "list_ex changed (nxt # rest)"
        by simp
      with False "3.IH"(2) have "changesCountOf (singleChange current st)
                    < changesCountOf (diffLoop (nxt # rest) (singleChange current st))"
        by blast
      then have "changesCountOf st
                   < changesCountOf (diffLoop (nxt # rest) (singleChange current st))"
        by (simp add: changesCountOf_single split: if_splits)
      then show ?thesis
        by (simp only: eq)
    qed
  qed
qed

lemma unchanged_same_text:
  "\<not> list_ex changed cs \<Longrightarrow>
   concat (map value (filter (\<lambda>c. \<not> Change.added c) cs))
     = concat (map value (filter (\<lambda>c. \<not> Change.removed c) cs))"
  by (induction cs) (auto simp: changed_def)

lemma reconstructs_changed:
  "reconstructs cs oldStr newStr \<Longrightarrow> oldStr \<noteq> newStr \<Longrightarrow> list_ex changed cs"
  using unchanged_same_text [of cs] by (auto simp: reconstructs_def)

lemma CR_neq_LF: "CR \<noteq> LF"
  by (simp add: CR_def LF_def)

lemma crlf_head: "crlf s = x # xs \<Longrightarrow> x \<noteq> LF"
  by (cases s) (auto simp: crlf_def CR_neq_LF split: if_splits)

lemma replaceCRLF_crlf: "replaceCRLF (crlf s) = s"
proof (induction s)
  case Nil
  then show ?case by (simp add: crlf_def)
next
  case (Cons a s)
  show ?case
  proof (cases "a = LF")
    case True
    then have "crlf (a # s) = CR # LF # crlf s"
      by (simp add: crlf_def)
    with Cons True show ?thesis
      by simp
  next
    case False
    then have c: "crlf (a # s) = a # crlf s"
      by (simp add: crlf_def)
    show ?thesis
    proof (cases "crlf s")
      case Nil
      with c Cons show ?thesis
        by simp
    next
      case (Cons x xs)
      with crlf_head have "x \<noteq> LF"
        by blast
      with c Cons Cons.IH show ?thesis
        by simp
    qed
  qed
qed

lemma replaceCRLF_noCRLF: "noCRLF s \<Longrightarrow> replaceCRLF s = s"
  by (induction s rule: replaceCRLF.induct) auto

lemma normalizeNewlines_crlf: "noCRLF s \<Longrightarrow> normalizeNewlines (crlf s) = normalizeNewlines s"
  by (simp add: normalizeNewlines_def replaceCRLF_crlf replaceCRLF_noCRLF)

lemma noCRLF_no_CR: "CR \<notin> set s \<Longrightarrow> noCRLF s"
  by (induction s rule: noCRLF.induct) auto

lemma replaceCR_no_CR: "CR \<notin> set s \<Longrightarrow> replaceCR s = s"
  by (induction s) (auto simp: replaceCR_def)

lemma normalizeNewlines_no_CR: "CR \<notin> set s \<Longrightarrow> normalizeNewlines s = s"
  by (simp add: normalizeNewlines_def replaceCRLF_noCRLF noCRLF_no_CR replaceCR_no_CR)

lemma splitLF_snoc_LF: "splitLF (s @ [LF]) = splitLF s @ [[]]"
  by (induction s) (auto simp: splitLF_not_Nil split: list.splits)

lemma last_splitLF: "last (splitLF s) = [] \<longleftrightarrow> s = [] \<or> last s = LF"
  by (induction s) (auto simp: splitLF_not_Nil dest: splitLF_single split: list.splits)

lemma splitPreserve_snoc_LF:
  "s \<noteq> [] \<Longrightarrow> last s \<noteq> LF \<Longrightarrow> splitPreserve (s @ [LF]) = splitPreserve s"
  by (simp add: splitPreserve_def Let_def splitLF_snoc_LF splitLF_not_Nil last_splitLF)

lemma unchangedRun_types: "list_all (\<lambda>l. type l = Unchanged) (unchangedRun old new ls)"
  by (simp add: unchangedRun_def list_all_iff split_def)

lemma diffLoop_unchanged:
  "list_all unchangedChange cs \<Longrightarrow>
   changesCountOf (diffLoop cs st) = changesCountOf st \<and>
   (list_all (\<lambda>l. type l = Unchanged) (diff st) \<longrightarrow>
    list_all (\<lambda>l. type l = Unchanged) (diff (diffLoop cs st)))"
proof (induction cs st rule: diffLoop.induct)
  case (1 st)
  then show ?case by simp
next
  case (2 current st)
  then show ?case
    using unchangedRun_types
    by (simp add: unchangedChange_def singleChange_eq equalResult_def changesCountOf_def)
next
  case (3 current nxt rest st)
  then have "diffLoop (current # nxt # rest) st = diffLoop (nxt # rest) (singleChange current st)"
    by (simp add: unchangedChange_def)
  moreover have "changesCountOf (singleChange current st) = changesCountOf st"
    using 3 by (simp add: changesCountOf_single unchangedChange_def)
  moreover have "list_all (\<lambda>l. type l = Unchanged) (diff st) \<longrightarrow>
      list_all (\<lambda>l. type l = Unchanged) (diff (singleChange current st))"
    using 3 unchangedRun_types
    by (simp add: unchangedChange_def singleChange_eq equalResult_def)
  ultimately show ?case
    using 3 by (simp add: unchangedChange_def)
qed

lemma percentOf_zero: "percentOf 0 n = 0"
  by (simp add: percentOf_def fl_zero Math_round_def)

lemma percentOf_range: "0 \<le> percentOf c n \<and> percentOf c n \<le> 100"
  by (simp add: percentOf_def)

text \<open>The summary fields in terms of the loop's final state.\<close>

lemma summary_fields:
  "totalLines (summary (computeTextDiff d original comparison)) =
     max (length (splitPreserve (normalizeNewlines original)))
         (length (splitPreserve (normalizeNewlines comparison)))"
  "identical (summary (computeTextDiff d original comparison)) \<longleftrightarrow>
     DiffSummary.added (summary (computeTextDiff d original comparison)) = 0 \<and>
     DiffSummary.removed (summary (computeTextDiff d original comparison)) = 0 \<and>
     DiffSummary.modified (summary (computeTextDiff d original comparison)) = 0"
  "changePercent (summary (computeTextDiff d original comparison)) =
     percentOf (DiffSummary.added (summary (computeTextDiff d original comparison)) +
                DiffSummary.removed (summary (computeTextDiff d original comparison)) +
                DiffSummary.modified (summary (computeTextDiff d original comparison)))
       (totalLines (summary (computeTextDiff d original comparison)))"
  "0 \<le> changePercent (summary (computeTextDiff d original comparison))"
  "changePercent (summary (computeTextDiff d original comparison)) \<le> 100"
  by (simp_all add: computeTextDiff_def Let_def percentOf_range)

lemma identical_iff:
  "identical (summary (computeTextDiff d original comparison)) \<longleftrightarrow>
     changesCountOf (diffLoop (d (normalizeNewlines original) (normalizeNewlines comparison))
       initialLoop) = 0"
  by (simp add: computeTextDiff_def Let_def changesCountOf_def)

lemma changesCountOf_initial: "changesCountOf initialLoop = 0"
  by (simp add: changesCountOf_def initialLoop_def)

lemma tokenize_concat: "concat (tokenize s) = s"
  by (induction s) (auto split: list.splits)

lemma oldTokens_Inserted: "oldTokens (map Inserted ys) = []"
  by (induction ys) auto

lemma oldTokens_Deleted: "oldTokens (map Deleted xs) = xs"
  by (induction xs) auto

lemma newTokens_Inserted: "newTokens (map Inserted ys) = ys"
  by (induction ys) auto

lemma newTokens_Deleted: "newTokens (map Deleted xs) = []"
  by (induction xs) auto

lemma editScript_tokens:
  "oldTokens (editScript xs ys) = xs \<and> newTokens (editScript xs ys) = ys"
  by (induction xs ys rule: editScript.induct)
    (auto simp: Let_def oldTokens_Inserted oldTokens_Deleted newTokens_Inserted newTokens_Deleted)

lemma editScript_same: "editScript xs xs = map Equal xs"
  by (induction xs) auto

lemma mergeOps_flags: "list_all (\<lambda>c. \<not> (Change.added c \<and> Change.removed c)) (mergeOps ops)"
  by (induction ops rule: mergeOps.induct) (auto split: list.splits)

lemma mergeOps_old:
  "concat (map value (filter (\<lambda>c. \<not> Change.added c) (mergeOps ops))) = concat (oldTokens ops)"
proof (induction ops rule: mergeOps.induct)
  case 1
  then show ?case by simp
next
  case (2 t ops)
  then show ?case by (auto split: list.splits)
next
  case (3 t ops)
  then show ?case by (auto split: list.splits)
next
  case (4 t ops)
  with mergeOps_flags [of ops] show ?case by (auto split: list.splits)
qed

lemma mergeOps_new:
  "concat (map value (filter (\<lambda>c. \<not> Change.removed c) (mergeOps ops))) = concat (newTokens ops)"
proof (induction ops rule: mergeOps.induct)
  case 1
  then show ?case by simp
next
  case (2 t ops)
  then show ?case by (auto split: list.splits)
next
  case (3 t ops)
  with mergeOps_flags [of ops] show ?case by (auto split: list.splits)
next
  case (4 t ops)
  then show ?case by (auto split: list.splits)
qed

lemma mergeOps_Equal: "list_all unchangedChange (mergeOps (map Equal ts))"
  by (induction ts) (auto simp: unchangedChange_def split: list.splits)

text \<open>The reference diff meets both contracts used below.\<close>

lemma lineDiff_reconstructs: "reconstructs (lineDiff oldStr newStr) oldStr newStr"
  by (simp add: reconstructs_def lineDiff_def mergeOps_old mergeOps_new editScript_tokens
      tokenize_concat)

lemma lineDiff_self: "list_all unchangedChange (lineDiff s s)"
  by (simp add: lineDiff_def editScript_same mergeOps_Equal)

text \<open>The output is the list of the final state, and the loop only appends to it.\<close>

lemma singleChange_diff: "\<exists>tail. diff (singleChange c st) = diff st @ tail"
  by (simp add: singleChange_eq insertedResult_def deletedResult_def equalResult_def)

lemma modificationGroup_diff: "\<exists>tail. diff (modificationGroup c n st) = diff st @ tail"
  by (simp add: modificationGroup_eq groupResult_def)

lemma diffLoop_diff: "\<exists>tail. diff (diffLoop cs st) = diff st @ tail"
proof (induction cs st rule: diffLoop.induct)
  case (1 st)
  then show ?case by simp
next
  case (2 current st)
  then show ?case by (simp add: singleChange_diff)
next
  case (3 current nxt rest st)
  show ?case
  proof (cases "Change.removed current \<and> Change.added nxt")
    case True
    with 3 obtain t1 where "diff (diffLoop (current # nxt # rest) st)
        = diff (modificationGroup current nxt st) @ t1"
      by auto
    moreover obtain t2 where "diff (modificationGroup current nxt st) = diff st @ t2"
      using modificationGroup_diff by blast
    ultimately show ?thesis
      by simp
  next
    case False
    with 3 obtain t1 where "diff (diffLoop (current # nxt # rest) st)
        = diff (singleChange current st) @ t1"
      by auto
    moreover obtain t2 where "diff (singleChange current st) = diff st @ t2"
      using singleChange_diff by blast
    ultimately show ?thesis
      by simp
  qed
qed

lemma diffLoop_keeps: "take (length (diff st)) (diff (diffLoop cs st)) = diff st"
  using diffLoop_diff [of cs st] by auto

lemma lines_computeTextDiff:
  "lines (computeTextDiff diffLines original comparison) =
     diff (diffLoop (diffLines (normalizeNewlines original) (normalizeNewlines comparison))
       initialLoop)"
  by (simp add: computeTextDiff_def Let_def)

lemma filter_addedRun: "filter (\<lambda>l. type l \<noteq> Unchanged) (addedRun k ls) = addedRun k ls"
  by (simp add: addedRun_def filter_map comp_def split_def)

lemma filter_removedRun: "filter (\<lambda>l. type l \<noteq> Unchanged) (removedRun k ls) = removedRun k ls"
  by (simp add: removedRun_def filter_map comp_def split_def)

lemma filter_modifiedRun:
  "filter (\<lambda>l. type l \<noteq> Unchanged) (modifiedRun k m bs as) = modifiedRun k m bs as"
  by (simp add: modifiedRun_def filter_map comp_def split_def)

lemma filter_unchangedRun: "filter (\<lambda>l. type l \<noteq> Unchanged) (unchangedRun k m ls) = []"
  by (simp add: unchangedRun_def filter_map comp_def split_def)

lemma length_runs:
  "length (addedRun k ls) = length ls"
  "length (removedRun k ls) = length ls"
  "length (modifiedRun k m bs as) = min (length bs) (length as)"
  by (simp_all add: addedRun_def removedRun_def modifiedRun_def)

lemma changedLines_single:
  "changedLines (singleChange c st) =
     changedLines st +
       (if Change.added c \<or> Change.removed c then length (splitPreserve (value c)) else 0)"
  by (simp add: changedLines_def singleChange_eq insertedResult_def deletedResult_def
      equalResult_def filter_addedRun filter_removedRun filter_unchangedRun length_runs)

lemma changedLines_group:
  "changedLines (modificationGroup c n st) =
     changedLines st + max (length (splitPreserve (value c))) (length (splitPreserve (value n)))"
  by (simp add: changedLines_def modificationGroup_eq groupResult_def filter_addedRun
      filter_removedRun filter_modifiedRun length_runs)

text \<open>The three counters together count the emitted lines that are not unchanged.\<close>

lemma changedLines_diffLoop:
  "changedLines (diffLoop cs st) + changesCountOf st
     = changedLines st + changesCountOf (diffLoop cs st)"
proof (induction cs st rule: diffLoop.induct)
  case (1 st)
  then show ?case by simp
next
  case (2 current st)
  then show ?case
    by (simp add: changedLines_single changesCountOf_single)
next
  case (3 current nxt rest st)
  show ?case
  proof (cases "Change.removed current \<and> Change.added nxt")
    case True
    with 3 have "changedLines (diffLoop (current # nxt # rest) st)
          + changesCountOf (modificationGroup current nxt st)
        = changedLines (modificationGroup current nxt st)
          + changesCountOf (diffLoop (current # nxt # rest) st)"
      by simp
    then show ?thesis
      by (simp add: changedLines_group changesCountOf_group)
  next
    case False
    with 3 have "changedLines (diffLoop (current # nxt # rest) st)
          + changesCountOf (singleChange current st)
        = changedLines (singleChange current st)
          + changesCountOf (diffLoop (current # nxt # rest) st)"
      by auto
    then show ?thesis
      by (simp add: changedLines_single changesCountOf_single split: if_splits)
  qed
qed

lemma changedLines_output:
  "changedLines (diffLoop cs initialLoop) = changesCountOf (diffLoop cs initialLoop)"
  using changedLines_diffLoop [of cs initialLoop]
  by (simp add: changesCountOf_initial) (simp add: changedLines_def initialLoop_def)

lemma changed_line_emitted:
  assumes "list_ex changed cs"
  shows "list_ex (\<lambda>l. type l \<noteq> Unchanged) (diff (diffLoop cs initialLoop))"
proof -
  from assms have "changesCountOf initialLoop < changesCountOf (diffLoop cs initialLoop)"
    by (rule changesCountOf_strict)
  then have "0 < changedLines (diffLoop cs initialLoop)"
    by (simp add: changedLines_output)
  then have "filter (\<lambda>l. type l \<noteq> Unchanged) (diff (diffLoop cs initialLoop)) \<noteq> []"
    by (simp add: changedLines_def)
  then show ?thesis
    by (simp add: list_ex_iff filter_empty_conv)
qed

lemma length_replaceCRLF: "length (replaceCRLF s) \<le> length s"
  by (induction s rule: replaceCRLF.induct) auto

lemma length_replaceCRLF_less: "\<not> noCRLF s \<Longrightarrow> length (replaceCRLF s) < length s"
proof (induction s rule: replaceCRLF.induct)
  case (1 a b cs)
  then show ?case
    using length_replaceCRLF [of cs] by (auto split: if_splits)
qed simp_all

lemma normalizeNewlines_crlf_iff:
  "(normalizeNewlines (crlf s) = normalizeNewlines s) = noCRLF s"
proof
  assume e: "normalizeNewlines (crlf s) = normalizeNewlines s"
  show "noCRLF s"
  proof (rule ccontr)
    assume "\<not> noCRLF s"
    then have "length (replaceCRLF s) < length s"
      by (rule length_replaceCRLF_less)
    moreover from e have "replaceCR s = replaceCR (replaceCRLF s)"
      by (simp add: normalizeNewlines_def replaceCRLF_crlf)
    then have "length s = length (replaceCRLF s)"
      unfolding replaceCR_def by (rule map_eq_imp_length_eq)
    ultimately show False
      by simp
  qed
next
  assume "noCRLF s"
  then show "normalizeNewlines (crlf s) = normalizeNewlines s"
    by (rule normalizeNewlines_crlf)
qed

subsection \<open>Claims about the reconciler\<close>

text \<open>
  C2. The output lines are those of the loop's final state, and lines once emitted stay
  in place. Wherever the edit script has a Deleted run immediately followed by an
  Inserted run, the loop emits the \<open>j\<close>-th deleted line paired with the \<open>j\<close>-th inserted
  line as one modified line, with both line numbers and both texts, for \<open>j\<close> below the
  shorter length; then the leftover deleted lines as removed, or the leftover inserted
  lines as added (\<open>groupResult\<close>). A standalone Inserted run emits added lines only
  (\<open>insertedResult\<close>) and a standalone Deleted run removed lines only
  (\<open>deletedResult\<close>). Here \<open>pre\<close> is the part of the script before the run and \<open>rest\<close>
  the part after it.
\<close>

theorem modification_grouping:
  "lines (computeTextDiff diffLines original comparison) =
     diff (diffLoop (diffLines (normalizeNewlines original) (normalizeNewlines comparison))
       initialLoop) \<and>
   take (length (diff st)) (diff (diffLoop rest st)) = diff st \<and>
   (Change.removed c \<and> \<not> Change.added c \<and> Change.added n \<longrightarrow>
      diffLoop (pre @ c # n # rest) st =
        diffLoop rest
          (groupResult (splitPreserve (value c)) (splitPreserve (value n)) (diffLoop pre st))) \<and>
   (Change.added c \<and> \<not> Change.removed c \<and> (pre = [] \<or> \<not> Change.removed (last pre)) \<longrightarrow>
      diffLoop (pre @ c # rest) st =
        diffLoop rest (insertedResult (splitPreserve (value c)) (diffLoop pre st))) \<and>
   (Change.removed c \<and> \<not> Change.added c \<and> (rest = [] \<or> \<not> Change.added (hd rest)) \<longrightarrow>
      diffLoop (pre @ c # rest) st =
        diffLoop rest (deletedResult (splitPreserve (value c)) (diffLoop pre st)))"
proof (intro conjI impI)
  show "lines (computeTextDiff diffLines original comparison) =
     diff (diffLoop (diffLines (normalizeNewlines original) (normalizeNewlines comparison))
       initialLoop)"
    by (rule lines_computeTextDiff)
next
  show "take (length (diff st)) (diff (diffLoop rest st)) = diff st"
    by (rule diffLoop_keeps)
next
  assume a: "Change.removed c \<and> \<not> Change.added c \<and> Change.added n"
  then have "diffLoop (pre @ c # n # rest) st = diffLoop (c # n # rest) (diffLoop pre st)"
    by (intro diffLoop_append) simp
  with a show "diffLoop (pre @ c # n # rest) st =
        diffLoop rest
          (groupResult (splitPreserve (value c)) (splitPreserve (value n)) (diffLoop pre st))"
    by (simp add: modificationGroup_eq)
next
  assume a: "Change.added c \<and> \<not> Change.removed c \<and> (pre = [] \<or> \<not> Change.removed (last pre))"
  then have "diffLoop (pre @ c # rest) st = diffLoop (c # rest) (diffLoop pre st)"
    by (intro diffLoop_append) auto
  with a show "diffLoop (pre @ c # rest) st =
        diffLoop rest (insertedResult (splitPreserve (value c)) (diffLoop pre st))"
    by (cases rest) (simp_all add: singleChange_eq)
next
  assume a: "Change.removed c \<and> \<not> Change.added c \<and> (rest = [] \<or> \<not> Change.added (hd rest))"
  then have "diffLoop (pre @ c # rest) st = diffLoop (c # rest) (diffLoop pre st)"
    by (intro diffLoop_append) auto
  with a show "diffLoop (pre @ c # rest) st =
        diffLoop rest (deletedResult (splitPreserve (value c)) (diffLoop pre st))"
    by (cases rest) (auto simp add: singleChange_eq)
qed

theorem modification_grouping_witness:
  "diff (diffLoop [\<lparr>value = ''a\<newline>b\<newline>c\<newline>'', added = False, removed = True\<rparr>,
                   \<lparr>value = ''x\<newline>y\<newline>'', added = True, removed = False\<rparr>] initialLoop) =
     [\<lparr>type = Modified, oldNumber = Some 1, newNumber = Some 1,
       before = Some ''a'', after = Some ''x''\<rparr>,
      \<lparr>type = Modified, oldNumber = Some 2, newNumber = Some 2,
       before = Some ''b'', after = Some ''y''\<rparr>,
      \<lparr>type = Removed, oldNumber = Some 3, newNumber = None,
       before = Some ''c'', after = None\<rparr>] \<and>
   diff (diffLoop [\<lparr>value = ''x\<newline>y\<newline>'', added = True, removed = False\<rparr>] initialLoop) =
     [\<lparr>type = Added, oldNumber = None, newNumber = Some 1, before = None, after = Some ''x''\<rparr>,
      \<lparr>type = Added, oldNumber = None, newNumber = Some 2, before = None, after = Some ''y''\<rparr>] \<and>
   diff (diffLoop [\<lparr>value = ''a\<newline>b\<newline>c\<newline>'', added = False, removed = True\<rparr>] initialLoop) =
     [\<lparr>type = Removed, oldNumber = Some 1, newNumber = None, before = Some ''a'', after = None\<rparr>,
      \<lparr>type = Removed, oldNumber = Some 2, newNumber = None, before = Some ''b'', after = None\<rparr>,
      \<lparr>type = Removed, oldNumber = Some 3, newNumber = None, before = Some ''c'', after = None\<rparr>]"
proof -
  let ?c = "\<lparr>value = ''a\<newline>b\<newline>c\<newline>'', added = False, removed = True\<rparr>"
  let ?n = "\<lparr>value = ''x\<newline>y\<newline>'', added = True, removed = False\<rparr>"
  have c: "splitPreserve ''a\<newline>b\<newline>c\<newline>'' = [''a'', ''b'', ''c'']"
    by code_simp
  have n: "splitPreserve ''x\<newline>y\<newline>'' = [''x'', ''y'']"
    by code_simp
  from modification_grouping [where c = ?c and n = ?n and pre = "[]" and rest = "[]"
      and st = initialLoop]
  have "diffLoop [?c, ?n] initialLoop = groupResult [''a'', ''b'', ''c''] [''x'', ''y''] initialLoop"
    by (simp add: c n del: diffLoop.simps(2,3))
  moreover from modification_grouping [where c = ?n and n = ?c and pre = "[]" and rest = "[]"
      and st = initialLoop]
  have "diffLoop [?n] initialLoop = insertedResult [''x'', ''y''] initialLoop"
    by (simp add: n del: diffLoop.simps(2,3))
  moreover from modification_grouping [where c = ?c and n = ?n and pre = "[]" and rest = "[]"
      and st = initialLoop]
  have "diffLoop [?c] initialLoop = deletedResult [''a'', ''b'', ''c''] initialLoop"
    by (simp add: c del: diffLoop.simps(2,3))
  ultimately show ?thesis
    by (simp add: groupResult_def insertedResult_def deletedResult_def modifiedRun_def
        removedRun_def addedRun_def initialLoop_def)
qed

text \<open>
  C3. The summary's \<open>changePercent\<close> is meant to be \<open>round(100 * changes / totalLines)\<close>
  clamped to 0..100. The code multiplies the rounded quotient by 100 in double
  arithmetic, so an exact tie can fall below one half: with 17 common lines and 23
  added ones the percentage is 57.5, which rounds to 58 (also when \<open>100 * 23 / 40\<close> is
  evaluated in double arithmetic), and the code returns 57.
\<close>

theorem changePercent_tie:
  "summary (computeTextDiff lineDiff (concat (replicate 17 ''a\<newline>''))
      (concat (replicate 17 ''a\<newline>'') @ concat (replicate 23 ''b\<newline>''))) =
     \<lparr>identical = False, totalLines = 40, added = 23, removed = 0, modified = 0,
      changePercent = 57\<rparr> \<and>
   fl (fl (23 / 40) * 100) = 8092405580431359 / 140737488355328 \<and>
   percentOf (23 + 0 + 0) 40 = 57 \<and>
   min 100 (max 0 (Math_round (100 * (23 + 0 + 0) / 40))) = 58 \<and>
   min 100 (max 0 (Math_round (fl (fl (100 * (23 + 0 + 0)) / 40)))) = 58"
  by code_simp

text \<open>
  C4, as stated, fails. For the empty text the two sides have 0 and 1 lines. For a
  non-empty text the line counts agree, but the texts handed to the line diff differ
  in their last line's terminator, and the result is one modified line, not an
  identical pair.
\<close>

theorem trailing_newline_counterexample:
  "length (splitPreserve (normalizeNewlines [])) \<noteq>
     length (splitPreserve (normalizeNewlines ([] @ ''\<newline>''))) \<and>
   \<not> identical (summary (computeTextDiff lineDiff [] ([] @ ''\<newline>''))) \<and>
   \<not> identical (summary (computeTextDiff lineDiff ''a'' (''a'' @ ''\<newline>''))) \<and>
   map type (lines (computeTextDiff lineDiff ''a'' (''a'' @ ''\<newline>''))) = [Modified]"
  by code_simp

text \<open>
  C4, amended. A trailing empty line produced by a final newline is not counted as a
  real line: for every non-empty normalized text \<open>s\<close> not ending in a line feed, \<open>s\<close>
  and \<open>s\<close> followed by a line feed split into the same lines, and reconciling them in
  either order reports that common line count as \<open>totalLines\<close>. The edit script is
  computed by \<^verbatim>\<open>diffLines\<close> on the two normalized texts, not on their line sequences:
  the texts differ, so whenever the changes of \<^verbatim>\<open>diffLines\<close> reconstruct its two
  arguments the summary is not identical and at least one output line is not unchanged.
\<close>

theorem trailing_newline_lines:
  "s \<noteq> [] \<Longrightarrow> last s \<noteq> LF \<Longrightarrow> CR \<notin> set s \<Longrightarrow>
   splitPreserve (normalizeNewlines (s @ [LF])) = splitPreserve (normalizeNewlines s) \<and>
   totalLines (summary (computeTextDiff d s (s @ [LF]))) = length (splitPreserve s) \<and>
   totalLines (summary (computeTextDiff d (s @ [LF]) s)) = length (splitPreserve s) \<and>
   (reconstructs (d s (s @ [LF])) s (s @ [LF]) \<longrightarrow>
      \<not> identical (summary (computeTextDiff d s (s @ [LF]))) \<and>
      list_ex (\<lambda>l. type l \<noteq> Unchanged) (lines (computeTextDiff d s (s @ [LF])))) \<and>
   (reconstructs (d (s @ [LF]) s) (s @ [LF]) s \<longrightarrow>
      \<not> identical (summary (computeTextDiff d (s @ [LF]) s)) \<and>
      list_ex (\<lambda>l. type l \<noteq> Unchanged) (lines (computeTextDiff d (s @ [LF]) s)))"
proof -
  assume s: "s \<noteq> []" "last s \<noteq> LF" "CR \<notin> set s"
  then have n1: "normalizeNewlines s = s"
    by (simp add: normalizeNewlines_no_CR)
  from s have n2: "normalizeNewlines (s @ [LF]) = s @ [LF]"
    by (simp add: normalizeNewlines_no_CR CR_neq_LF)
  from s have sp: "splitPreserve (s @ [LF]) = splitPreserve s"
    by (simp add: splitPreserve_snoc_LF)
  have r1: "\<not> identical (summary (computeTextDiff d s (s @ [LF]))) \<and>
      list_ex (\<lambda>l. type l \<noteq> Unchanged) (lines (computeTextDiff d s (s @ [LF])))"
    if "reconstructs (d s (s @ [LF])) s (s @ [LF])"
  proof -
    from that have c: "list_ex changed (d s (s @ [LF]))"
      by (rule reconstructs_changed) simp
    then have "changesCountOf initialLoop < changesCountOf (diffLoop (d s (s @ [LF])) initialLoop)"
      by (rule changesCountOf_strict)
    then have "\<not> identical (summary (computeTextDiff d s (s @ [LF])))"
      by (simp add: identical_iff n1 n2)
    moreover from c have "list_ex (\<lambda>l. type l \<noteq> Unchanged) (lines (computeTextDiff d s (s @ [LF])))"
      by (simp only: lines_computeTextDiff n1 n2 changed_line_emitted)
    ultimately show ?thesis
      by simp
  qed
  have r2: "\<not> identical (summary (computeTextDiff d (s @ [LF]) s)) \<and>
      list_ex (\<lambda>l. type l \<noteq> Unchanged) (lines (computeTextDiff d (s @ [LF]) s))"
    if "reconstructs (d (s @ [LF]) s) (s @ [LF]) s"
  proof -
    from that have c: "list_ex changed (d (s @ [LF]) s)"
      by (rule reconstructs_changed) simp
    then have "changesCountOf initialLoop < changesCountOf (diffLoop (d (s @ [LF]) s) initialLoop)"
      by (rule changesCountOf_strict)
    then have "\<not> identical (summary (computeTextDiff d (s @ [LF]) s))"
      by (simp add: identical_iff n1 n2)
    moreover from c have "list_ex (\<lambda>l. type l \<noteq> Unchanged) (lines (computeTextDiff d (s @ [LF]) s))"
      by (simp only: lines_computeTextDiff n1 n2 changed_line_emitted)
    ultimately show ?thesis
      by simp
  qed
  show ?thesis
    using r1 r2 by (simp add: summary_fields(1) n1 n2 sp)
qed

theorem trailing_newline_lines_witness:
  "''a\<newline>b'' \<noteq> [] \<and> last ''a\<newline>b'' \<noteq> LF \<and> CR \<notin> set ''a\<newline>b'' \<and>
   reconstructs (lineDiff ''a\<newline>b'' (''a\<newline>b'' @ [LF])) ''a\<newline>b'' (''a\<newline>b'' @ [LF]) \<and>
   splitPreserve (normalizeNewlines (''a\<newline>b'' @ [LF])) = [''a'', ''b''] \<and>
   totalLines (summary (computeTextDiff lineDiff ''a\<newline>b'' (''a\<newline>b'' @ [LF]))) = 2 \<and>
   \<not> identical (summary (computeTextDiff lineDiff ''a\<newline>b'' (''a\<newline>b'' @ [LF]))) \<and>
   list_ex (\<lambda>l. type l \<noteq> Unchanged)
     (lines (computeTextDiff lineDiff ''a\<newline>b'' (''a\<newline>b'' @ [LF])))"
proof -
  have h: "''a\<newline>b'' \<noteq> []" "last ''a\<newline>b'' \<noteq> LF" "CR \<notin> set ''a\<newline>b''"
    by (simp_all add: LF_def CR_def)
  have r: "reconstructs (lineDiff ''a\<newline>b'' (''a\<newline>b'' @ [LF])) ''a\<newline>b'' (''a\<newline>b'' @ [LF])"
    by (rule lineDiff_reconstructs)
  have n: "normalizeNewlines ''a\<newline>b'' = ''a\<newline>b''"
    by code_simp
  have l: "splitPreserve ''a\<newline>b'' = [''a'', ''b'']"
    by code_simp
  from h r trailing_newline_lines [OF h, of lineDiff] show ?thesis
    by (simp add: n l)
qed

text \<open>
  C6. Reconciling a text against itself gives an identical summary, a change percentage
  of 0 and only unchanged lines, for every \<^verbatim>\<open>diffLines\<close> that reports no added or
  removed part between a text and itself.
\<close>

theorem reconcile_self:
  "list_all unchangedChange (diffLines (normalizeNewlines s) (normalizeNewlines s)) \<Longrightarrow>
   identical (summary (computeTextDiff diffLines s s)) \<and>
   changePercent (summary (computeTextDiff diffLines s s)) = 0 \<and>
   list_all (\<lambda>l. type l = Unchanged) (lines (computeTextDiff diffLines s s))"
proof -
  assume a: "list_all unchangedChange (diffLines (normalizeNewlines s) (normalizeNewlines s))"
  let ?st = "diffLoop (diffLines (normalizeNewlines s) (normalizeNewlines s)) initialLoop"
  have "list_all (\<lambda>l. type l = Unchanged) (diff initialLoop)"
    by (simp add: initialLoop_def)
  with diffLoop_unchanged [OF a, of initialLoop]
  have c: "changesCountOf ?st = 0" and u: "list_all (\<lambda>l. type l = Unchanged) (diff ?st)"
    by (simp_all only: changesCountOf_initial)
  from c have z: "Loop.added ?st + Loop.removed ?st + Loop.modified ?st = 0"
    by (simp add: changesCountOf_def)
  show ?thesis
    using u z by (simp add: computeTextDiff_def Let_def percentOf_zero del: add_is_0)
qed

theorem reconcile_self_witness:
  "list_all unchangedChange
     (lineDiff (normalizeNewlines (''hello'' @ CR # ''\<newline>world\<newline>''))
        (normalizeNewlines (''hello'' @ CR # ''\<newline>world\<newline>''))) \<and>
   identical (summary (computeTextDiff lineDiff (''hello'' @ CR # ''\<newline>world\<newline>'')
     (''hello'' @ CR # ''\<newline>world\<newline>''))) \<and>
   changePercent (summary (computeTextDiff lineDiff (''hello'' @ CR # ''\<newline>world\<newline>'')
     (''hello'' @ CR # ''\<newline>world\<newline>''))) = 0 \<and>
   list_all (\<lambda>l. type l = Unchanged)
     (lines (computeTextDiff lineDiff (''hello'' @ CR # ''\<newline>world\<newline>'')
        (''hello'' @ CR # ''\<newline>world\<newline>'')))"
proof -
  have h: "list_all unchangedChange
     (lineDiff (normalizeNewlines (''hello'' @ CR # ''\<newline>world\<newline>''))
        (normalizeNewlines (''hello'' @ CR # ''\<newline>world\<newline>'')))"
    by (rule lineDiff_self)
  from h reconcile_self [of lineDiff "''hello'' @ CR # ''\<newline>world\<newline>''", OF h]
  show ?thesis
    by simp
qed

text \<open>
  C7, as stated, fails: a text that already has a carriage return before a line feed
  gains a line when its line feeds are rewritten, because the lone carriage return left
  over is a line break of its own.
\<close>

theorem newline_style_counterexample:
  "totalLines (summary (computeTextDiff lineDiff (crlf (''a'' @ CR # ''\<newline>b''))
      (''a'' @ CR # ''\<newline>b''))) = 3 \<and>
   totalLines (summary (computeTextDiff lineDiff (''a'' @ CR # ''\<newline>b'')
      (''a'' @ CR # ''\<newline>b''))) = 2"
  by code_simp

text \<open>
  C7, amended. Replacing every line feed by carriage return, line feed in an input in
  which no line feed immediately follows a carriage return yields the same result, the
  same summary and the same lines, whatever the other input is; so does the rewriting
  of both inputs when both are such texts. These are exactly the inputs whose
  normalized text the rewriting leaves as it was.
\<close>

theorem newline_style_invariance:
  "(noCRLF s \<longrightarrow> computeTextDiff d (crlf s) t = computeTextDiff d s t) \<and>
   (noCRLF t \<longrightarrow> computeTextDiff d s (crlf t) = computeTextDiff d s t) \<and>
   (noCRLF s \<and> noCRLF t \<longrightarrow> computeTextDiff d (crlf s) (crlf t) = computeTextDiff d s t) \<and>
   (normalizeNewlines (crlf s) = normalizeNewlines s) = noCRLF s"
  by (simp add: computeTextDiff_def normalizeNewlines_crlf normalizeNewlines_crlf_iff)

theorem newline_style_invariance_witness:
  "noCRLF ''a\<newline>b\<newline>'' \<and> noCRLF ''a\<newline>c\<newline>'' \<and>
   computeTextDiff lineDiff (crlf ''a\<newline>b\<newline>'') (''a'' @ CR # ''\<newline>c'') =
     computeTextDiff lineDiff ''a\<newline>b\<newline>'' (''a'' @ CR # ''\<newline>c'') \<and>
   computeTextDiff lineDiff (''a'' @ CR # ''\<newline>c'') (crlf ''a\<newline>b\<newline>'') =
     computeTextDiff lineDiff (''a'' @ CR # ''\<newline>c'') ''a\<newline>b\<newline>'' \<and>
   computeTextDiff lineDiff (crlf ''a\<newline>b\<newline>'') (crlf ''a\<newline>c\<newline>'') =
     computeTextDiff lineDiff ''a\<newline>b\<newline>'' ''a\<newline>c\<newline>'' \<and>
   crlf ''a\<newline>b\<newline>'' = ''a'' @ CR # ''\<newline>b'' @ CR # ''\<newline>''"
proof -
  have h: "noCRLF ''a\<newline>b\<newline>''" "noCRLF ''a\<newline>c\<newline>''"
    by (simp_all add: CR_def)
  have c: "crlf ''a\<newline>b\<newline>'' = ''a'' @ CR # ''\<newline>b'' @ CR # ''\<newline>''"
    by (simp add: crlf_def LF_def)
  from h
    newline_style_invariance [of "''a\<newline>b\<newline>''" lineDiff "''a'' @ CR # ''\<newline>c''"]
    newline_style_invariance [of "''a'' @ CR # ''\<newline>c''" lineDiff "''a\<newline>b\<newline>''"]
    newline_style_invariance [of "''a\<newline>b\<newline>''" lineDiff "''a\<newline>c\<newline>''"]
  have "computeTextDiff lineDiff (crlf ''a\<newline>b\<newline>'') (''a'' @ CR # ''\<newline>c'') =
      computeTextDiff lineDiff ''a\<newline>b\<newline>'' (''a'' @ CR # ''\<newline>c'')"
    and "computeTextDiff lineDiff (''a'' @ CR # ''\<newline>c'') (crlf ''a\<newline>b\<newline>'') =
      computeTextDiff lineDiff (''a'' @ CR # ''\<newline>c'') ''a\<newline>b\<newline>''"
    and "computeTextDiff lineDiff (crlf ''a\<newline>b\<newline>'') (crlf ''a\<newline>c\<newline>'') =
      computeTextDiff lineDiff ''a\<newline>b\<newline>'' ''a\<newline>c\<newline>''"
    by blast+
  with h c show ?thesis
    by blast
qed

end
